theory Spec2Isabelle
  imports Main
begin

section \<open>Exceptions\<close>

text \<open>
  The exceptions a run can end with, with their messages: those the source raises itself,
  the \<^verbatim>\<open>ValueError\<close> of \<^verbatim>\<open>int\<close>, the \<^verbatim>\<open>OverflowError\<close> of the SQLite binding, and
  \<open>BaseExceptionRaised\<close> for an exception outside the class \<^verbatim>\<open>Exception\<close>
  (\<^verbatim>\<open>KeyboardInterrupt\<close>, \<^verbatim>\<open>SystemExit\<close>) leaving the progress emitter:
  \<^verbatim>\<open>except Exception\<close> does not catch it. The messages of the two library exceptions are
  given without their tails (the offending string, the number of digits).
\<close>

datatype py_error =
    FileNotFoundError string
  | EnvironmentError string
  | ValueError string
  | RuntimeError string
  | OverflowError string
  | BaseExceptionRaised string

section \<open>Python string primitives used by the data source\<close>

text \<open>
  Strings are lists of characters, a character being a code point below 256. The library
  calls of the source are written out: \<^verbatim>\<open>s.strip("/")\<close>, \<^verbatim>\<open>s.rstrip("/")\<close>,
  \<^verbatim>\<open>s.rstrip("\n")\<close>, \<^verbatim>\<open>s.strip()\<close>, \<^verbatim>\<open>s.split(sep)\<close> for a one-character separator,
  \<^verbatim>\<open>s.isdigit()\<close>, \<^verbatim>\<open>int(s)\<close> and \<^verbatim>\<open>sep.join(xs)\<close>.

  Below 256, \<^verbatim>\<open>str.isspace\<close> holds of the code points 9 to 13, 28 to 32, 133 and 160, and
  \<^verbatim>\<open>str.isdigit\<close> of \<open>0\<close> to \<open>9\<close> and of the superscripts two, three and one (178,
  179, 185). \<^verbatim>\<open>int\<close> accepts only \<open>0\<close> to \<open>9\<close> of these, and no more than 4300 of
  them: \<open>py_int\<close> is \<^verbatim>\<open>int(s)\<close> on the strings of which \<^verbatim>\<open>isdigit\<close> holds, with
  its \<^verbatim>\<open>ValueError\<close>.
\<close>

definition lstrip_chars :: "(char \<Rightarrow> bool) \<Rightarrow> string \<Rightarrow> string" where
  "lstrip_chars P s = dropWhile P s"

definition rstrip_chars :: "(char \<Rightarrow> bool) \<Rightarrow> string \<Rightarrow> string" where
  "rstrip_chars P s = rev (dropWhile P (rev s))"

definition strip_chars :: "(char \<Rightarrow> bool) \<Rightarrow> string \<Rightarrow> string" where
  "strip_chars P s = rstrip_chars P (lstrip_chars P s)"

definition is_slash :: "char \<Rightarrow> bool" where
  "is_slash c = (c = CHR ''/'')"

definition is_newline :: "char \<Rightarrow> bool" where
  "is_newline c = (c = CHR 0x0A)"

definition is_space :: "char \<Rightarrow> bool" where
  "is_space c = (let n = (of_char c :: nat) in
     (9 \<le> n \<and> n \<le> 13) \<or> (28 \<le> n \<and> n \<le> 32) \<or> n = 133 \<or> n = 160)"

definition py_strip :: "string \<Rightarrow> string" where
  "py_strip s = strip_chars is_space s"

fun split_on :: "char \<Rightarrow> string \<Rightarrow> string list" where
  "split_on sep [] = [[]]"
| "split_on sep (c # cs) =
     (if c = sep then [] # split_on sep cs
      else (case split_on sep cs of
              [] \<Rightarrow> [[c]]
            | p # ps \<Rightarrow> (c # p) # ps))"

definition is_decimal :: "char \<Rightarrow> bool" where
  "is_decimal c = (let n = (of_char c :: nat) in 48 \<le> n \<and> n \<le> 57)"

definition is_digit :: "char \<Rightarrow> bool" where
  "is_digit c = (let n = (of_char c :: nat) in (48 \<le> n \<and> n \<le> 57) \<or> n = 178 \<or> n = 179 \<or> n = 185)"

definition isdigit :: "string \<Rightarrow> bool" where
  "isdigit s = (s \<noteq> [] \<and> list_all is_digit s)"

definition int_of_digits :: "string \<Rightarrow> int" where
  "int_of_digits s = foldl (\<lambda>a c. 10 * a + (int (of_char c) - 48)) 0 s"

definition int_max_str_digits :: nat where
  "int_max_str_digits = 4300"

definition py_int :: "string \<Rightarrow> py_error + int" where
  "py_int s =
     (if length (takeWhile is_decimal s) > int_max_str_digits
      then Inl (ValueError ''Exceeds the limit (4300 digits) for integer string conversion'')
      else if s \<noteq> [] \<and> list_all is_decimal s then Inr (int_of_digits s)
      else Inl (ValueError ''invalid literal for int() with base 10''))"

fun join :: "string \<Rightarrow> string list \<Rightarrow> string" where
  "join sep [] = []"
| "join sep [x] = x"
| "join sep (x # y # ys) = x @ sep @ join sep (y # ys)"

section \<open>Catalog records and line parsing\<close>

text \<open>
  The tuple \<^verbatim>\<open>(full_path, drive_name, size, file_type, modified)\<close> that
  \<^verbatim>\<open>_index_target\<close> appends to its batch.
\<close>

datatype entry = Entry
  (e_full_path: string)
  (e_drive: string)
  (e_size: int)
  (e_file_type: string)
  (e_modified: "string option")

text \<open>
  \<^verbatim>\<open>clean_dir = dir_path.strip("/") if dir_path else ""\<close> and the scoped target
  \<^verbatim>\<open>f"{drive_name}:{clean_dir}" if clean_dir else f"{drive_name}:"\<close>, as both
  \<^verbatim>\<open>_count_remote_items\<close> and \<^verbatim>\<open>_index_target\<close> compute them.
\<close>

definition clean_dir_of :: "string \<Rightarrow> string" where
  "clean_dir_of dir_path = (if dir_path \<noteq> [] then strip_chars is_slash dir_path else [])"

definition target_of :: "string \<Rightarrow> string \<Rightarrow> string" where
  "target_of drive_name clean_dir =
     (if clean_dir \<noteq> [] then drive_name @ '':'' @ clean_dir else drive_name @ '':'')"

text \<open>
  The body of the loop over the listing's lines, up to the record it builds. \<open>Inr None\<close>
  is the \<^verbatim>\<open>continue\<close> of a line whose first field is empty, \<open>Inl\<close> the
  \<^verbatim>\<open>ValueError\<close> of \<^verbatim>\<open>int(parts[2])\<close>, which is raised before the record is built.
  \<open>parse_size\<close> is the expression
  \<^verbatim>\<open>int(parts[2]) if len(parts) > 2 and parts[2].isdigit() else 0\<close>.
\<close>

definition parse_size :: "string list \<Rightarrow> py_error + int" where
  "parse_size parts = (if length parts > 2 \<and> isdigit (parts ! 2) then py_int (parts ! 2) else Inr 0)"

definition parse_line :: "string \<Rightarrow> string \<Rightarrow> string \<Rightarrow> py_error + entry option" where
  "parse_line drive_name clean_dir line =
     (let parts = split_on (CHR 0x09) (rstrip_chars is_newline line) in
      if parts = [] \<or> hd parts = [] then Inr None
      else
        let rel_path = parts ! 0;
            file_type = (if length parts > 1 then parts ! 1 else [])
        in case parse_size parts of
             Inl err \<Rightarrow> Inl err
           | Inr sz \<Rightarrow>
               let modified = (if length parts > 3 then Some (parts ! 3) else None);
                   prefix = (if clean_dir \<noteq> [] then rstrip_chars is_slash clean_dir @ ''/'' else []);
                   full_path = drive_name @ '':'' @ prefix @ rel_path
               in Inr (Some (Entry full_path drive_name sz file_type modified)))"

section \<open>External collaborators and the observable world\<close>

text \<open>
  What one call of \<^verbatim>\<open>_emit_progress\<close> of the base class does: the attribute may be
  absent, the call may return, raise an instance of \<^verbatim>\<open>Exception\<close>, or raise outside it.
\<close>

datatype emit_outcome =
    NoEmitter
  | EmitReturns
  | EmitRaisesException string
  | EmitRaisesBaseException string

text \<open>
  The run of \<^verbatim>\<open>rclone lsf\<close> on a target: the lines of its output (each as the text-mode
  pipe yields it), its exit status and its error stream. The run of \<^verbatim>\<open>rclone size\<close>:
  its exit status, its error stream, and what
  \<^verbatim>\<open>int(json.loads(stdout or "{}").get("count", 0))\<close> makes of its output.
\<close>

record lsf_proc =
  lsf_lines :: "string list"
  lsf_returncode :: int
  lsf_stderr :: string

datatype json_count = JsonInvalid | JsonNoCount | JsonCount int

record size_proc =
  size_returncode :: int
  size_stderr :: string
  size_count :: json_count

record env =
  config_exists :: bool
  rclone_installed :: bool
  sections :: "string list"
  size_run :: "string \<Rightarrow> size_proc"
  lsf_run :: "string \<Rightarrow> lsf_proc"
  emitter :: "nat \<Rightarrow> emit_outcome"

text \<open>
  The calls the run makes on its surroundings, in the order it makes them: subprocess
  launches, the catalog file's directory and connection, the commits, the setters of the
  base class and the emissions.
\<close>

datatype event =
    CountRun string
  | ListRun string
  | MakeDirs
  | Connect
  | Commit "entry list"
  | CloseConn
  | SetTotalItems int
  | SetProcessedItems int
  | SetProcessingTime
  | SetFetchCompleted
  | EmitProgress emit_outcome

text \<open>
  A row of table \<^verbatim>\<open>files\<close> is its \<^verbatim>\<open>id\<close> and the five columns the batch tuple
  fills. \<open>db_seq\<close> is the largest \<^verbatim>\<open>id\<close> the table has ever given out
  (\<^verbatim>\<open>AUTOINCREMENT\<close>). The rows of a world are the committed rows.
\<close>

type_synonym row = "nat \<times> entry"

record world =
  db_rows :: "row list"
  db_seq :: nat
  trace :: "event list"
  emit_calls :: nat

definition log_event :: "event \<Rightarrow> world \<Rightarrow> world" where
  "log_event e w = w\<lparr>trace := trace w @ [e]\<rparr>"

section \<open>The catalog store\<close>

text \<open>
  \<^verbatim>\<open>INSERT OR REPLACE\<close> under \<^verbatim>\<open>UNIQUE(full_path)\<close>: the rows with the same
  \<^verbatim>\<open>full_path\<close> are deleted and the new row gets a fresh \<^verbatim>\<open>id\<close>. The binding
  raises \<^verbatim>\<open>OverflowError\<close> for a size outside the 64-bit integers of SQLite.

  \<^verbatim>\<open>executemany\<close> runs the statement for each tuple in turn and stops at the first that
  raises. The rows it wrote before are then never committed: \<^verbatim>\<open>conn.commit()\<close> is not
  reached, the exception leaves \<^verbatim>\<open>_index_target\<close>, and \<^verbatim>\<open>fetch\<close> closes the
  connection. So \<open>flush_batch\<close> leaves the world as it was when it fails.
\<close>

definition sqlite_int_ok :: "int \<Rightarrow> bool" where
  "sqlite_int_ok n = (- (2 ^ 63) \<le> n \<and> n < 2 ^ 63)"

definition insert_or_replace :: "entry \<Rightarrow> world \<Rightarrow> py_error + world" where
  "insert_or_replace e w =
     (if sqlite_int_ok (e_size e)
      then Inr (w\<lparr>db_rows := filter (\<lambda>r. e_full_path (snd r) \<noteq> e_full_path e) (db_rows w) @ [(Suc (db_seq w), e)],
                 db_seq := Suc (db_seq w)\<rparr>)
      else Inl (OverflowError ''Python int too large to convert to SQLite INTEGER''))"

fun executemany :: "entry list \<Rightarrow> world \<Rightarrow> py_error + world" where
  "executemany [] w = Inr w"
| "executemany (e # batch) w =
     (case insert_or_replace e w of
        Inl err \<Rightarrow> Inl err
      | Inr w1 \<Rightarrow> executemany batch w1)"

definition flush_batch :: "entry list \<Rightarrow> world \<Rightarrow> (py_error + unit) \<times> world" where
  "flush_batch batch w =
     (case executemany batch w of
        Inl err \<Rightarrow> (Inl err, w)
      | Inr w1 \<Rightarrow> (Inr (), log_event (Commit batch) w1))"

definition init_db :: "world \<Rightarrow> world" where
  "init_db w = log_event Connect w"

section \<open>Progress reporting\<close>

definition emit_progress_safe :: "(nat \<Rightarrow> emit_outcome) \<Rightarrow> world \<Rightarrow> (py_error + unit) \<times> world" where
  "emit_progress_safe em w =
     (let outcome = em (emit_calls w);
          w' = log_event (EmitProgress outcome) (w\<lparr>emit_calls := Suc (emit_calls w)\<rparr>)
      in case outcome of
           EmitRaisesBaseException msg \<Rightarrow> (Inl (BaseExceptionRaised msg), w')
         | _ \<Rightarrow> (Inr (), w'))"

definition update_progress :: "(nat \<Rightarrow> emit_outcome) \<Rightarrow> int \<Rightarrow> world \<Rightarrow> (py_error + unit) \<times> world" where
  "update_progress em processed w =
     emit_progress_safe em (log_event SetProcessingTime (log_event (SetProcessedItems processed) w))"

section \<open>The listing ingestor\<close>

definition batch_size :: nat where
  "batch_size = 500"

fun index_loop ::
  "(nat \<Rightarrow> emit_outcome) \<Rightarrow> string \<Rightarrow> string \<Rightarrow> string list \<Rightarrow> entry list \<Rightarrow> int \<Rightarrow> world
     \<Rightarrow> (py_error + (entry list \<times> int)) \<times> world" where
  "index_loop em drive_name clean_dir [] batch processed w = (Inr (batch, processed), w)"
| "index_loop em drive_name clean_dir (line # rest) batch processed w =
     (case parse_line drive_name clean_dir line of
        Inl err \<Rightarrow> (Inl err, w)
      | Inr None \<Rightarrow> index_loop em drive_name clean_dir rest batch processed w
      | Inr (Some e) \<Rightarrow>
          (let batch1 = batch @ [e]
           in case (if length batch1 \<ge> batch_size then flush_batch batch1 w else (Inr (), w)) of
                (Inl err, w1) \<Rightarrow> (Inl err, w1)
              | (Inr u0, w1) \<Rightarrow>
                  (let batch2 = (if length batch1 \<ge> batch_size then [] else batch1);
                       processed1 = processed + 1
                   in case update_progress em processed1 w1 of
                        (Inl err, w2) \<Rightarrow> (Inl err, w2)
                      | (Inr u, w2) \<Rightarrow> index_loop em drive_name clean_dir rest batch2 processed1 w2)))"

definition index_target :: "env \<Rightarrow> string \<Rightarrow> string \<Rightarrow> int \<Rightarrow> world \<Rightarrow> (py_error + int) \<times> world" where
  "index_target ev drive_name dir_path processed w =
     (let clean_dir = clean_dir_of dir_path;
          target = target_of drive_name clean_dir;
          proc = lsf_run ev target
      in case index_loop (emitter ev) drive_name clean_dir (lsf_lines proc) [] processed
                (log_event (ListRun target) w) of
           (Inl err, w1) \<Rightarrow> (Inl err, w1)
         | (Inr (batch, processed1), w1) \<Rightarrow>
             if lsf_returncode proc \<noteq> 0
             then (Inl (RuntimeError (''rclone lsf failed for '' @ target @ '': '' @ py_strip (lsf_stderr proc))), w1)
             else if batch \<noteq> []
             then (case flush_batch batch w1 of
                     (Inl err, w2) \<Rightarrow> (Inl err, w2)
                   | (Inr u, w2) \<Rightarrow> (Inr processed1, w2))
             else (Inr processed1, w1))"

section \<open>The item counter\<close>

definition count_remote_items :: "env \<Rightarrow> string \<Rightarrow> string \<Rightarrow> py_error + int" where
  "count_remote_items ev drive_name dir_path =
     (let clean_dir = clean_dir_of dir_path;
          target = target_of drive_name clean_dir;
          result = size_run ev target
      in if size_returncode result \<noteq> 0
         then Inl (RuntimeError (if py_strip (size_stderr result) \<noteq> [] then py_strip (size_stderr result)
                                 else ''Unknown rclone size error''))
         else (case size_count result of
                 JsonInvalid \<Rightarrow> Inl (ValueError ''invalid rclone size output'')
               | JsonNoCount \<Rightarrow> Inr 0
               | JsonCount n \<Rightarrow> Inr n))"

fun count_all_items :: "env \<Rightarrow> (string \<times> string) list \<Rightarrow> int \<Rightarrow> world \<Rightarrow> int \<times> world" where
  "count_all_items ev [] tot w = (tot, w)"
| "count_all_items ev ((drive_name, dir_path) # rest) tot w =
     (let w1 = log_event (CountRun (target_of drive_name (clean_dir_of dir_path))) w
      in case count_remote_items ev drive_name dir_path of
           Inr n \<Rightarrow> count_all_items ev rest (tot + n) w1
         | Inl exc \<Rightarrow> count_all_items ev rest tot w1)"

section \<open>Construction and target resolution\<close>

text \<open>
  A value of \<^verbatim>\<open>params\<close> for \<^verbatim>\<open>drives\<close>, \<^verbatim>\<open>dirs\<close> or \<^verbatim>\<open>directories\<close>: absent,
  a comma-separated string, or a list of strings.
\<close>

datatype param = PNone | PStr string | PList "string list"

definition truthy :: "param \<Rightarrow> bool" where
  "truthy p = (case p of PNone \<Rightarrow> False | PStr s \<Rightarrow> s \<noteq> [] | PList xs \<Rightarrow> xs \<noteq> [])"

definition py_or :: "param \<Rightarrow> param \<Rightarrow> param" where
  "py_or a b = (if truthy a then a else b)"

definition list_param :: "param \<Rightarrow> string list" where
  "list_param p =
     (case py_or p (PList []) of
        PStr s \<Rightarrow> filter (\<lambda>d. d \<noteq> []) (map py_strip (split_on (CHR '','') s))
      | PList xs \<Rightarrow> xs
      | PNone \<Rightarrow> [])"

record datasource =
  rclone_config_path :: string
  sqlite_path :: string
  drives :: "string list"
  directories :: "string list"

text \<open>
  \<^verbatim>\<open>__init__\<close>, from the two paths as resolved and the three list parameters.
\<close>

definition init :: "string \<Rightarrow> string \<Rightarrow> param \<Rightarrow> param \<Rightarrow> param \<Rightarrow> datasource" where
  "init config_path db_path drives_param dirs_param directories_param =
     (let drives_list = list_param drives_param;
          dirs_list = list_param (py_or dirs_param directories_param)
      in \<lparr>rclone_config_path = config_path, sqlite_path = db_path, drives = drives_list,
          directories = (if dirs_list \<noteq> [] then dirs_list else [[]])\<rparr>)"

definition resolve_targets :: "datasource \<Rightarrow> string list \<Rightarrow> py_error + (string \<times> string) list" where
  "resolve_targets ds remotes =
     (let selected_drives = (if drives ds \<noteq> [] then drives ds else remotes);
          missing = filter (\<lambda>d. d \<notin> set remotes) selected_drives
      in if missing \<noteq> []
         then Inl (ValueError (''Requested remotes not in config: '' @ join '', '' missing))
         else Inr (concat (map (\<lambda>drive. map (\<lambda>directory. (drive, directory)) (directories ds)) selected_drives)))"

section \<open>The run\<close>

record summary =
  total_indexed :: int
  remotes :: "string set"

fun index_all :: "env \<Rightarrow> (string \<times> string) list \<Rightarrow> int \<Rightarrow> world \<Rightarrow> (py_error + int) \<times> world" where
  "index_all ev [] processed w = (Inr processed, w)"
| "index_all ev ((drive_name, dir_path) # rest) processed w =
     (case index_target ev drive_name dir_path processed w of
        (Inl err, w1) \<Rightarrow> (Inl err, w1)
      | (Inr processed1, w1) \<Rightarrow> index_all ev rest processed1 w1)"

definition validate_config :: "env \<Rightarrow> datasource \<Rightarrow> py_error + unit" where
  "validate_config ev ds =
     (if \<not> config_exists ev then Inl (FileNotFoundError (''rclone config not found: '' @ rclone_config_path ds))
      else if \<not> rclone_installed ev then Inl (EnvironmentError ''rclone binary not found on PATH.'')
      else Inr ())"

definition fetch :: "env \<Rightarrow> datasource \<Rightarrow> world \<Rightarrow> (py_error + summary) \<times> world" where
  "fetch ev ds w =
     (case validate_config ev ds of
        Inl err \<Rightarrow> (Inl err, w)
      | Inr u \<Rightarrow>
          (case resolve_targets ds (sections ev) of
             Inl err \<Rightarrow> (Inl err, w)
           | Inr targets \<Rightarrow>
               if targets = [] then (Inl (ValueError ''No rclone remotes found to index.''), w)
               else
                 (let w1 = init_db (log_event MakeDirs w);
                      (total_items, w2) = count_all_items ev targets 0 w1;
                      w3 = log_event (SetProcessedItems 0) (log_event (SetTotalItems total_items) w2)
                  in case emit_progress_safe (emitter ev) w3 of
                       (Inl err, w4) \<Rightarrow> (Inl err, w4)
                     | (Inr u1, w4) \<Rightarrow>
                         (case index_all ev targets 0 w4 of
                            (Inl err, w5) \<Rightarrow> (Inl err, log_event CloseConn w5)
                          | (Inr processed, w5) \<Rightarrow>
                              (let w6 = log_event SetFetchCompleted (log_event CloseConn w5)
                               in case emit_progress_safe (emitter ev) w6 of
                                    (Inl err, w7) \<Rightarrow> (Inl err, w7)
                                  | (Inr u2, w7) \<Rightarrow>
                                      (Inr \<lparr>total_indexed = processed, remotes = set (map fst targets)\<rparr>, w7))))))"

section \<open>Specification vocabulary\<close>

text \<open>
  The functions below are not code of the data source: they name what the theorems speak
  about. \<open>parsed_records\<close> are the records a listing's lines yield, in order;
  \<open>no_line_raises\<close> says that \<^verbatim>\<open>int\<close> raises on no line's size field, which
  holds when every line's size field is \<open>size_field_ok\<close>: decimal, of at most 4300
  digits, if \<^verbatim>\<open>isdigit\<close> accepts it at all; \<open>storable\<close> says that SQLite can hold a
  record's size;
  \<open>emit_safe\<close> says that the emitter never raises outside \<^verbatim>\<open>Exception\<close>;
  \<open>store_of\<close> is the table with its sequence, \<open>upsert\<close> and \<open>upsert_all\<close> are what
  \<open>insert_or_replace\<close> and \<open>executemany\<close> do to it when they return; the remaining functions read one
  kind of event off a trace; \<open>full_batches n\<close> is the number of records, out of \<open>n\<close>,
  that fill whole batches.
\<close>

definition record_of_line :: "string \<Rightarrow> string \<Rightarrow> string \<Rightarrow> entry option" where
  "record_of_line drive_name clean_dir line =
     (case parse_line drive_name clean_dir line of Inl err \<Rightarrow> None | Inr r \<Rightarrow> r)"

definition parsed_records :: "string \<Rightarrow> string \<Rightarrow> string list \<Rightarrow> entry list" where
  "parsed_records drive_name clean_dir ls = List.map_filter (record_of_line drive_name clean_dir) ls"

definition no_line_raises :: "string \<Rightarrow> string \<Rightarrow> string list \<Rightarrow> bool" where
  "no_line_raises drive_name clean_dir ls = list_all (\<lambda>l. \<not> isl (parse_line drive_name clean_dir l)) ls"

definition size_field_ok :: "string \<Rightarrow> bool" where
  "size_field_ok line =
     (let parts = split_on (CHR 0x09) (rstrip_chars is_newline line)
      in (length parts > 2 \<and> isdigit (parts ! 2)
            \<longrightarrow> list_all is_decimal (parts ! 2) \<and> length (parts ! 2) \<le> int_max_str_digits))"

definition storable :: "entry \<Rightarrow> bool" where
  "storable e = sqlite_int_ok (e_size e)"

text \<open>
  The errors that can end the loop over a listing's lines: those of \<^verbatim>\<open>int\<close>, that of
  the store, and whatever the emitter raises outside \<^verbatim>\<open>Exception\<close>.
\<close>

definition loop_error :: "py_error \<Rightarrow> bool" where
  "loop_error err =
     (case err of
        BaseExceptionRaised msg \<Rightarrow> True
      | OverflowError msg \<Rightarrow> msg = ''Python int too large to convert to SQLite INTEGER''
      | ValueError msg \<Rightarrow> msg = ''Exceeds the limit (4300 digits) for integer string conversion''
                            \<or> msg = ''invalid literal for int() with base 10''
      | _ \<Rightarrow> False)"

definition emit_safe :: "(nat \<Rightarrow> emit_outcome) \<Rightarrow> bool" where
  "emit_safe em = (\<forall>n msg. em n \<noteq> EmitRaisesBaseException msg)"

definition store_of :: "world \<Rightarrow> row list \<times> nat" where
  "store_of w = (db_rows w, db_seq w)"

definition upsert :: "entry \<Rightarrow> row list \<times> nat \<Rightarrow> row list \<times> nat" where
  "upsert e s = (filter (\<lambda>r. e_full_path (snd r) \<noteq> e_full_path e) (fst s) @ [(Suc (snd s), e)], Suc (snd s))"

definition upsert_all :: "entry list \<Rightarrow> row list \<times> nat \<Rightarrow> row list \<times> nat" where
  "upsert_all es s = foldl (\<lambda>s' e. upsert e s') s es"

fun committed :: "event list \<Rightarrow> entry list" where
  "committed [] = []"
| "committed (Commit b # es) = b @ committed es"
| "committed (e # es) = committed es"

fun processed_values :: "event list \<Rightarrow> int list" where
  "processed_values [] = []"
| "processed_values (SetProcessedItems n # es) = n # processed_values es"
| "processed_values (e # es) = processed_values es"

fun total_values :: "event list \<Rightarrow> int list" where
  "total_values [] = []"
| "total_values (SetTotalItems n # es) = n # total_values es"
| "total_values (e # es) = total_values es"

fun list_runs :: "event list \<Rightarrow> string list" where
  "list_runs [] = []"
| "list_runs (ListRun t # es) = t # list_runs es"
| "list_runs (e # es) = list_runs es"

definition full_batches :: "nat \<Rightarrow> nat" where
  "full_batches n = (n div batch_size) * batch_size"

text \<open>
  A scan target's identifier, the records its listing yields, whether its listing exits with
  status zero, whether its lines raise neither in \<^verbatim>\<open>int\<close> nor in the store
  (\<open>target_clean\<close>; \<open>target_readable\<close> asks this of the records of the whole batches
  only, which are all that a failing listing writes), the records of a list of targets, and
  the error a failing listing raises.
\<close>

definition target_name :: "string \<times> string \<Rightarrow> string" where
  "target_name t = target_of (fst t) (clean_dir_of (snd t))"

definition target_records :: "env \<Rightarrow> string \<times> string \<Rightarrow> entry list" where
  "target_records ev t = parsed_records (fst t) (clean_dir_of (snd t)) (lsf_lines (lsf_run ev (target_name t)))"

definition target_ok :: "env \<Rightarrow> string \<times> string \<Rightarrow> bool" where
  "target_ok ev t = (lsf_returncode (lsf_run ev (target_name t)) = 0)"

definition target_clean :: "env \<Rightarrow> string \<times> string \<Rightarrow> bool" where
  "target_clean ev t = (no_line_raises (fst t) (clean_dir_of (snd t)) (lsf_lines (lsf_run ev (target_name t)))
     \<and> list_all storable (target_records ev t))"

definition target_readable :: "env \<Rightarrow> string \<times> string \<Rightarrow> bool" where
  "target_readable ev t = (no_line_raises (fst t) (clean_dir_of (snd t)) (lsf_lines (lsf_run ev (target_name t)))
     \<and> list_all storable (take (full_batches (length (target_records ev t))) (target_records ev t)))"

definition all_records :: "env \<Rightarrow> (string \<times> string) list \<Rightarrow> entry list" where
  "all_records ev ts = concat (map (target_records ev) ts)"

definition listing_error :: "env \<Rightarrow> string \<times> string \<Rightarrow> py_error" where
  "listing_error ev t = RuntimeError (''rclone lsf failed for '' @ target_name t @ '': ''
      @ py_strip (lsf_stderr (lsf_run ev (target_name t))))"

text \<open>What a target adds to the progress total: its count, or nothing when counting fails.\<close>

definition count_or_zero :: "env \<Rightarrow> string \<times> string \<Rightarrow> int" where
  "count_or_zero ev t = (case count_remote_items ev (fst t) (snd t) of Inl exc \<Rightarrow> 0 | Inr n \<Rightarrow> n)"

text \<open>
  The world when the first emission of a run is due: the directory made, the connection
  open, every target counted, the total and the counter set.
\<close>

definition started :: "env \<Rightarrow> (string \<times> string) list \<Rightarrow> world \<Rightarrow> world" where
  "started ev ts w = w\<lparr>trace := trace w @ [MakeDirs, Connect] @ map (\<lambda>t. CountRun (target_name t)) ts
      @ [SetTotalItems (sum_list (map (count_or_zero ev) ts)), SetProcessedItems 0]\<rparr>"

text \<open>
  \<open>upsert\<close> and \<open>upsert_all\<close> on the entries alone, without their ids; a trace
  without its emissions; and two worlds that differ in emissions at most.
\<close>

definition replace_entry :: "entry \<Rightarrow> entry list \<Rightarrow> entry list" where
  "replace_entry e es = filter (\<lambda>x. e_full_path x \<noteq> e_full_path e) es @ [e]"

definition replace_all :: "entry list \<Rightarrow> entry list \<Rightarrow> entry list" where
  "replace_all new es = foldl (\<lambda>es' e. replace_entry e es') es new"

fun without_emits :: "event list \<Rightarrow> event list" where
  "without_emits [] = []"
| "without_emits (EmitProgress x # es) = without_emits es"
| "without_emits (e # es) = e # without_emits es"

definition same_but_emits :: "world \<Rightarrow> world \<Rightarrow> bool" where
  "same_but_emits w1 w2 = (store_of w1 = store_of w2 \<and> without_emits (trace w1) = without_emits (trace w2))"

section \<open>Concrete inputs\<close>

text \<open>A registry with the two remotes \<^verbatim>\<open>a\<close> and \<^verbatim>\<open>b\<close>, every subprocess returning at once.\<close>

definition env_ab :: env where
  "env_ab = \<lparr>config_exists = True, rclone_installed = True, sections = [''a'', ''b''],
     size_run = (\<lambda>t. \<lparr>size_returncode = 0, size_stderr = [], size_count = JsonCount 0\<rparr>),
     lsf_run = (\<lambda>t. \<lparr>lsf_lines = [], lsf_returncode = 0, lsf_stderr = []\<rparr>),
     emitter = (\<lambda>n. EmitReturns)\<rparr>"

text \<open>
  A listing line from its fields, an empty catalog, and a surrounding in which every
  listing prints the given lines and exits with the given status.
\<close>

definition tab_line :: "string list \<Rightarrow> string" where
  "tab_line fs = join [CHR 0x09] fs @ [CHR 0x0A]"

definition w_empty :: world where
  "w_empty = \<lparr>db_rows = [], db_seq = 0, trace = [], emit_calls = 0\<rparr>"

definition env_lines :: "string list \<Rightarrow> int \<Rightarrow> env" where
  "env_lines ls rc = \<lparr>config_exists = True, rclone_installed = True, sections = [''r''],
     size_run = (\<lambda>t. \<lparr>size_returncode = 0, size_stderr = [], size_count = JsonCount (int (length ls))\<rparr>),
     lsf_run = (\<lambda>t. \<lparr>lsf_lines = ls, lsf_returncode = rc, lsf_stderr = ''boom''\<rparr>),
     emitter = (\<lambda>n. EmitReturns)\<rparr>"

text \<open>Three listing lines, two of them for the same path, and the records they yield.\<close>

definition line_a1 :: string where
  "line_a1 = tab_line [''a.txt'', ''f'', ''1'', ''t'']"
definition line_a2 :: string where
  "line_a2 = tab_line [''a.txt'', ''f'', ''2'', ''t'']"
definition line_b :: string where
  "line_b = tab_line [''b.txt'', ''f'', ''7'', ''t'']"
definition entry_a1 :: entry where
  "entry_a1 = Entry ''r:a.txt'' ''r'' 1 ''f'' (Some ''t'')"
definition entry_a2 :: entry where
  "entry_a2 = Entry ''r:a.txt'' ''r'' 2 ''f'' (Some ''t'')"
definition entry_b :: entry where
  "entry_b = Entry ''r:b.txt'' ''r'' 7 ''f'' (Some ''t'')"

text \<open>
  A line whose size field is the superscript two, a digit for \<^verbatim>\<open>isdigit\<close> that
  \<^verbatim>\<open>int\<close> refuses, and a line whose size is \<open>2 ^ 63\<close>, one more than SQLite holds.
\<close>

definition line_sup :: string where
  "line_sup = tab_line [''s.txt'', ''f'', [CHR 0xB2], ''t'']"

definition line_big :: string where
  "line_big = tab_line [''big.bin'', ''f'', ''9223372036854775808'', ''t'']"

definition entry_big :: entry where
  "entry_big = Entry ''r:big.bin'' ''r'' 9223372036854775808 ''f'' (Some ''t'')"

text \<open>
  Three remotes. Counting fails for \<^verbatim>\<open>a\<close> and gives 5 elsewhere; the listing of
  \<^verbatim>\<open>a\<close> prints one line and exits with status 0, every other listing prints one line
  and exits with status 2.
\<close>

definition env_abc :: env where
  "env_abc = \<lparr>config_exists = True, rclone_installed = True, sections = [''a'', ''b'', ''c''],
     size_run = (\<lambda>t. if t = ''a:'' then \<lparr>size_returncode = 1, size_stderr = ''denied'', size_count = JsonInvalid\<rparr>
                     else \<lparr>size_returncode = 0, size_stderr = [], size_count = JsonCount 5\<rparr>),
     lsf_run = (\<lambda>t. if t = ''a:'' then \<lparr>lsf_lines = [line_a1], lsf_returncode = 0, lsf_stderr = []\<rparr>
                     else \<lparr>lsf_lines = [line_b], lsf_returncode = 2, lsf_stderr = ''no such dir''\<rparr>),
     emitter = (\<lambda>n. EmitRaisesException ''closed channel'')\<rparr>"

definition ds_all :: datasource where
  "ds_all = \<lparr>rclone_config_path = ''rclone.conf'', sqlite_path = ''my_files.sqlite'',
     drives = [], directories = [[]]\<rparr>"

text \<open>
  Two lines listed under an emitter that raises an \<^verbatim>\<open>Exception\<close> at every call, and
  under one that raises \<^verbatim>\<open>KeyboardInterrupt\<close>.
\<close>

definition env_noisy :: env where
  "env_noisy = (env_lines [line_a1, line_b] 0)\<lparr>emitter := (\<lambda>n. EmitRaisesException ''closed channel'')\<rparr>"

definition env_interrupt :: env where
  "env_interrupt = (env_lines [line_a1, line_b] 0)\<lparr>emitter := (\<lambda>n. EmitRaisesBaseException ''KeyboardInterrupt'')\<rparr>"

section \<open>Path construction\<close>

lemma rstrip_chars_keep: "\<not> P x \<Longrightarrow> rstrip_chars P (xs @ x # ys) = xs @ x # rstrip_chars P ys"
  by (auto simp: rstrip_chars_def dropWhile_append)

lemma rstrip_chars_Cons_keep: "\<not> P x \<Longrightarrow> rstrip_chars P (x # ys) = x # rstrip_chars P ys"
  using rstrip_chars_keep [of P x "[]" ys] by simp

lemma split_on_first: "sep \<notin> set p \<Longrightarrow> split_on sep (p @ sep # rest) = p # split_on sep rest"
  by (induction p) auto

lemma split_on_nonempty: "split_on sep s \<noteq> []"
  by (induction s) (auto split: list.splits)

lemma split_on_single: "sep \<notin> set p \<Longrightarrow> split_on sep p = [p]"
  by (induction p) auto

lemma clean_ab: "clean_dir_of ''/a/b/'' = ''a/b''"
  by (simp add: clean_dir_of_def strip_chars_def lstrip_chars_def rstrip_chars_def is_slash_def)

lemma clean_empty: "clean_dir_of [] = []"
  by (simp add: clean_dir_of_def)

lemma rstrip_idem: "rstrip_chars P (rstrip_chars P s) = rstrip_chars P s"
  unfolding rstrip_chars_def by (simp add: dropWhile_idem)

lemma rstrip_clean: "rstrip_chars is_slash (clean_dir_of d) = clean_dir_of d"
  by (simp add: clean_dir_of_def strip_chars_def rstrip_idem rstrip_chars_def)

lemma parse_line_path:
  assumes "p \<noteq> []" "CHR 0x09 \<notin> set p"
  shows "map_sum id (map_option e_full_path) (parse_line r cd (p @ CHR 0x09 # rest))
       = map_sum id (\<lambda>sz. Some (r @ '':'' @ (if cd \<noteq> [] then rstrip_chars is_slash cd @ ''/'' else []) @ p))
           (parse_size (p # split_on (CHR 0x09) (rstrip_chars is_newline rest)))"
proof -
  have "rstrip_chars is_newline (p @ CHR 0x09 # rest) = p @ CHR 0x09 # rstrip_chars is_newline rest"
    by (rule rstrip_chars_keep) (simp add: is_newline_def)
  then have "split_on (CHR 0x09) (rstrip_chars is_newline (p @ CHR 0x09 # rest))
      = p # split_on (CHR 0x09) (rstrip_chars is_newline rest)"
    using assms(2) by (simp add: split_on_first)
  then show ?thesis using assms(1)
    by (simp add: parse_line_def Let_def split: sum.splits)
qed

lemma full_path_example_dir:
  "map_sum id (map_option e_full_path) (parse_line r (clean_dir_of ''/a/b/'') (''c.txt'' @ CHR 0x09 # rest))
     = map_sum id (\<lambda>sz. Some (r @ '':a/b/c.txt''))
         (parse_size (''c.txt'' # split_on (CHR 0x09) (rstrip_chars is_newline rest)))"
  using parse_line_path [of "''c.txt''" r "''a/b''" rest]
  by (simp add: clean_ab rstrip_chars_def is_slash_def)

lemma full_path_example_root:
  "map_sum id (map_option e_full_path) (parse_line r (clean_dir_of []) (''c.txt'' @ CHR 0x09 # rest))
     = map_sum id (\<lambda>sz. Some (r @ '':c.txt''))
         (parse_size (''c.txt'' # split_on (CHR 0x09) (rstrip_chars is_newline rest)))"
  using parse_line_path [of "''c.txt''" r "[]" rest]
  by (simp add: clean_empty)

lemma lstrip_no_lead: "lstrip_chars P s = x # xs \<Longrightarrow> \<not> P x"
  unfolding lstrip_chars_def by (metis dropWhile_eq_Cons_conv)

lemma rstrip_no_trail: "rstrip_chars P s \<noteq> [] \<Longrightarrow> \<not> P (last (rstrip_chars P s))"
  unfolding rstrip_chars_def
  by (metis (no_types, lifting) dropWhile_eq_Nil_conv hd_dropWhile last_rev rev_is_Nil_conv)

lemma rstrip_hd: "rstrip_chars P s \<noteq> [] \<Longrightarrow> hd (rstrip_chars P s) = hd s"
  unfolding rstrip_chars_def
  by (metis append_Nil2 dropWhile_eq_Nil_conv hd_append2 rev_append rev_is_Nil_conv rev_rev_ident takeWhile_dropWhile_id)

lemma clean_dir_no_slash_ends:
  assumes "clean_dir_of d \<noteq> []"
  shows "hd (clean_dir_of d) \<noteq> CHR ''/'' \<and> last (clean_dir_of d) \<noteq> CHR ''/''"
proof -
  from assms have d: "d \<noteq> []" and cd: "clean_dir_of d = rstrip_chars is_slash (lstrip_chars is_slash d)"
    by (auto simp: clean_dir_of_def strip_chars_def split: if_splits)
  from assms cd have ne: "rstrip_chars is_slash (lstrip_chars is_slash d) \<noteq> []" by simp
  then have l: "lstrip_chars is_slash d \<noteq> []" by (auto simp: rstrip_chars_def)
  then obtain x xs where x: "lstrip_chars is_slash d = x # xs" by (cases "lstrip_chars is_slash d") auto
  then have "\<not> is_slash x" by (rule lstrip_no_lead)
  moreover have "hd (clean_dir_of d) = x" using rstrip_hd [OF ne] x cd by simp
  moreover have "\<not> is_slash (last (clean_dir_of d))" using rstrip_no_trail [OF ne] cd by simp
  ultimately show ?thesis by (simp add: is_slash_def)
qed

lemma parse_line_path_clean:
  assumes "p \<noteq> [] \<and> CHR 0x09 \<notin> set p \<and> CHR 0x0A \<notin> set p"
  shows "map_sum id (map_option e_full_path) (parse_line r (clean_dir_of d) (p @ CHR 0x09 # rest))
          = map_sum id (\<lambda>sz. Some (if clean_dir_of d = [] then r @ '':'' @ p else r @ '':'' @ clean_dir_of d @ ''/'' @ p))
              (parse_size (p # split_on (CHR 0x09) (rstrip_chars is_newline rest)))"
proof (cases "clean_dir_of d = []")
  case True
  then show ?thesis using parse_line_path [of p r "[]" rest] assms by simp
next
  case False
  then show ?thesis using parse_line_path [of p r "clean_dir_of d" rest] assms
    by (simp add: rstrip_clean)
qed

lemma target_ab: "target_of r (clean_dir_of ''/a/b/'') = r @ '':a/b''"
  by (simp add: clean_ab target_of_def)

lemma target_root: "target_of r (clean_dir_of []) = r @ '':''"
  by (simp add: clean_empty target_of_def)

lemma parse_size_absent: "length parts \<le> 2 \<Longrightarrow> parse_size parts = Inr 0"
  by (simp add: parse_size_def)

text \<open>
  Claim C5. The full path of a record is decided before its size is read, so it is stated
  for every line: the line either yields a record with the full path below or raises in
  \<^verbatim>\<open>int\<close>, as \<open>parse_size\<close> of its fields decides, and is never skipped. For every
  remote name \<open>r\<close>: with directory \<^verbatim>\<open>/a/b/\<close> and relative path \<^verbatim>\<open>c.txt\<close> the record's
  full path is \<^verbatim>\<open>r:a/b/c.txt\<close>; with the empty directory it is \<^verbatim>\<open>r:c.txt\<close> and the
  scoped target is the bare \<^verbatim>\<open>r:\<close>. In general the cleaned directory neither starts nor
  ends with a separator, and the full path puts exactly one separator between a non-empty
  cleaned directory and the relative path.
\<close>

theorem path_construction:
  "map_sum id (map_option e_full_path) (parse_line r (clean_dir_of ''/a/b/'') (''c.txt'' @ CHR 0x09 # rest))
     = map_sum id (\<lambda>sz. Some (r @ '':a/b/c.txt''))
         (parse_size (''c.txt'' # split_on (CHR 0x09) (rstrip_chars is_newline rest)))
   \<and> target_of r (clean_dir_of ''/a/b/'') = r @ '':a/b''
   \<and> map_sum id (map_option e_full_path) (parse_line r (clean_dir_of []) (''c.txt'' @ CHR 0x09 # rest))
     = map_sum id (\<lambda>sz. Some (r @ '':c.txt''))
         (parse_size (''c.txt'' # split_on (CHR 0x09) (rstrip_chars is_newline rest)))
   \<and> target_of r (clean_dir_of []) = r @ '':''
   \<and> (p \<noteq> [] \<and> CHR 0x09 \<notin> set p \<and> CHR 0x0A \<notin> set p \<longrightarrow>
        map_sum id (map_option e_full_path) (parse_line r (clean_dir_of d) (p @ CHR 0x09 # rest))
          = map_sum id (\<lambda>sz. Some (if clean_dir_of d = [] then r @ '':'' @ p else r @ '':'' @ clean_dir_of d @ ''/'' @ p))
              (parse_size (p # split_on (CHR 0x09) (rstrip_chars is_newline rest))))
   \<and> (clean_dir_of d \<noteq> [] \<longrightarrow> hd (clean_dir_of d) \<noteq> CHR ''/'' \<and> last (clean_dir_of d) \<noteq> CHR ''/'')
   \<and> (length parts \<le> 2 \<longrightarrow> parse_size parts = Inr 0)"
proof (intro conjI impI)
  show "map_sum id (map_option e_full_path) (parse_line r (clean_dir_of ''/a/b/'') (''c.txt'' @ CHR 0x09 # rest))
     = map_sum id (\<lambda>sz. Some (r @ '':a/b/c.txt''))
         (parse_size (''c.txt'' # split_on (CHR 0x09) (rstrip_chars is_newline rest)))"
    by (rule full_path_example_dir)
  show "map_sum id (map_option e_full_path) (parse_line r (clean_dir_of []) (''c.txt'' @ CHR 0x09 # rest))
     = map_sum id (\<lambda>sz. Some (r @ '':c.txt''))
         (parse_size (''c.txt'' # split_on (CHR 0x09) (rstrip_chars is_newline rest)))"
    by (rule full_path_example_root)
  show "target_of r (clean_dir_of ''/a/b/'') = r @ '':a/b''" by (rule target_ab)
  show "target_of r (clean_dir_of []) = r @ '':''" by (rule target_root)
next
  assume "p \<noteq> [] \<and> CHR 0x09 \<notin> set p \<and> CHR 0x0A \<notin> set p"
  then show "map_sum id (map_option e_full_path) (parse_line r (clean_dir_of d) (p @ CHR 0x09 # rest))
          = map_sum id (\<lambda>sz. Some (if clean_dir_of d = [] then r @ '':'' @ p else r @ '':'' @ clean_dir_of d @ ''/'' @ p))
              (parse_size (p # split_on (CHR 0x09) (rstrip_chars is_newline rest)))"
    by (rule parse_line_path_clean)
next
  assume "clean_dir_of d \<noteq> []"
  then show "hd (clean_dir_of d) \<noteq> CHR ''/''" using clean_dir_no_slash_ends by blast
next
  assume "clean_dir_of d \<noteq> []"
  then show "last (clean_dir_of d) \<noteq> CHR ''/''" using clean_dir_no_slash_ends by blast
next
  assume "length parts \<le> 2"
  then show "parse_size parts = Inr 0" by (rule parse_size_absent)
qed

text \<open>
  The general part of C5 at a directory with doubled separators at both ends, on a line
  of two fields.
\<close>

theorem path_construction_witness:
  "map_sum id (map_option e_full_path)
       (parse_line ''gdrive'' (clean_dir_of ''//photos/2024//'') (''img.png'' @ CHR 0x09 # ''f''))
     = Inr (Some ''gdrive:photos/2024/img.png'')
   \<and> hd (clean_dir_of ''//photos/2024//'') \<noteq> CHR ''/'' \<and> last (clean_dir_of ''//photos/2024//'') \<noteq> CHR ''/''"
proof -
  have c: "clean_dir_of ''//photos/2024//'' = ''photos/2024''"
    by (simp add: clean_dir_of_def strip_chars_def lstrip_chars_def rstrip_chars_def is_slash_def)
  have f: "split_on (CHR 0x09) (rstrip_chars is_newline ''f'') = [''f'']"
    by (simp add: rstrip_chars_def is_newline_def)
  have z: "parse_size [''img.png'', ''f''] = Inr 0"
    using path_construction [of "''gdrive''" "''f''" "''img.png''" "''//photos/2024//''" "[''img.png'', ''f'']"]
    by simp
  show ?thesis
    using path_construction [of "''gdrive''" "''f''" "''img.png''" "''//photos/2024//''" "[''img.png'', ''f'']"]
    by (simp add: c f z)
qed

section \<open>What each step changes\<close>

lemma committed_append: "committed (xs @ ys) = committed xs @ committed ys"
  by (induction xs rule: committed.induct) auto

lemma processed_values_append: "processed_values (xs @ ys) = processed_values xs @ processed_values ys"
  by (induction xs rule: processed_values.induct) auto

lemma total_values_append: "total_values (xs @ ys) = total_values xs @ total_values ys"
  by (induction xs rule: total_values.induct) auto

lemma list_runs_append: "list_runs (xs @ ys) = list_runs xs @ list_runs ys"
  by (induction xs rule: list_runs.induct) auto

lemma store_of_log_event: "store_of (log_event e w) = store_of w"
  by (simp add: store_of_def log_event_def)

lemma upsert_all_append: "upsert_all (xs @ ys) s = upsert_all ys (upsert_all xs s)"
  by (simp add: upsert_all_def)

lemma upsert_all_Nil: "upsert_all [] s = s"
  by (simp add: upsert_all_def)

lemma upsert_all_Cons: "upsert_all (e # es) s = upsert_all es (upsert e s)"
  by (simp add: upsert_all_def)

lemma insert_or_replace_Inr:
  "insert_or_replace e w = Inr w' \<Longrightarrow>
     storable e \<and> store_of w' = upsert e (store_of w) \<and> trace w' = trace w \<and> emit_calls w' = emit_calls w"
  by (auto simp: insert_or_replace_def storable_def store_of_def upsert_def split: if_splits)

lemma insert_or_replace_Inl:
  "insert_or_replace e w = Inl err \<Longrightarrow>
     \<not> storable e \<and> err = OverflowError ''Python int too large to convert to SQLite INTEGER''"
  by (auto simp: insert_or_replace_def storable_def split: if_splits)

lemma insert_or_replace_storable:
  "storable e \<Longrightarrow> \<exists>w'. insert_or_replace e w = Inr w'"
  by (simp add: insert_or_replace_def storable_def)

lemma executemany_Inr:
  "executemany es w = Inr w' \<Longrightarrow>
     list_all storable es \<and> store_of w' = upsert_all es (store_of w) \<and> trace w' = trace w
     \<and> emit_calls w' = emit_calls w"
proof (induction es arbitrary: w)
  case Nil
  then show ?case by (simp add: upsert_all_Nil)
next
  case (Cons e es)
  from Cons.prems obtain w1 where i: "insert_or_replace e w = Inr w1" and r: "executemany es w1 = Inr w'"
    by (auto split: sum.splits)
  from insert_or_replace_Inr [OF i] Cons.IH [OF r] show ?case
    by (simp add: upsert_all_Cons)
qed

lemma executemany_Inl:
  "executemany es w = Inl err \<Longrightarrow>
     \<not> list_all storable es \<and> err = OverflowError ''Python int too large to convert to SQLite INTEGER''"
proof (induction es arbitrary: w)
  case Nil
  then show ?case by simp
next
  case (Cons e es)
  show ?case
  proof (cases "insert_or_replace e w")
    case (Inl e1)
    with Cons.prems have "err = e1" by simp
    with Inl insert_or_replace_Inl [of e w e1] show ?thesis by simp
  next
    case (Inr w1)
    with Cons.prems have "executemany es w1 = Inl err" by simp
    from Cons.IH [OF this] show ?thesis by simp
  qed
qed

lemma executemany_storable:
  "list_all storable es \<Longrightarrow> \<exists>w'. executemany es w = Inr w'"
proof (induction es arbitrary: w)
  case Nil
  then show ?case by simp
next
  case (Cons e es)
  then obtain w1 where i: "insert_or_replace e w = Inr w1"
    using insert_or_replace_storable [of e w] by auto
  from Cons obtain w' where "executemany es w1 = Inr w'" by auto
  with i show ?case by simp
qed

lemma flush_batch_Inr:
  "flush_batch b w = (Inr u, w') \<Longrightarrow>
     list_all storable b \<and> store_of w' = upsert_all b (store_of w) \<and> trace w' = trace w @ [Commit b]
     \<and> emit_calls w' = emit_calls w"
  unfolding flush_batch_def
  by (auto split: sum.splits dest!: executemany_Inr simp: store_of_log_event) (simp_all add: log_event_def)

lemma flush_batch_Inl:
  "flush_batch b w = (Inl err, w') \<Longrightarrow>
     w' = w \<and> \<not> list_all storable b \<and> err = OverflowError ''Python int too large to convert to SQLite INTEGER''"
  unfolding flush_batch_def
  by (auto split: sum.splits dest!: executemany_Inl)

lemma flush_batch_storable:
  "list_all storable b \<Longrightarrow> \<exists>w'. flush_batch b w = (Inr (), w')"
  unfolding flush_batch_def
  using executemany_storable [of b w] by auto

lemma emit_progress_safe_cases:
  "emit_progress_safe em w = (r, w') \<Longrightarrow>
     store_of w' = store_of w \<and> trace w' = trace w @ [EmitProgress (em (emit_calls w))]
     \<and> emit_calls w' = Suc (emit_calls w)
     \<and> (r = Inr () \<or> (\<exists>msg. r = Inl (BaseExceptionRaised msg) \<and> em (emit_calls w) = EmitRaisesBaseException msg))"
  by (auto simp: emit_progress_safe_def Let_def store_of_def log_event_def split: emit_outcome.splits)

lemma emit_progress_safe_ok:
  "emit_safe em \<Longrightarrow> fst (emit_progress_safe em w) = Inr ()"
  by (auto simp: emit_progress_safe_def Let_def emit_safe_def split: emit_outcome.splits)

lemma update_progress_cases:
  "update_progress em p w = (r, w') \<Longrightarrow>
     store_of w' = store_of w
     \<and> trace w' = trace w @ [SetProcessedItems p, SetProcessingTime, EmitProgress (em (emit_calls w))]
     \<and> emit_calls w' = Suc (emit_calls w)
     \<and> (r = Inr () \<or> (\<exists>msg. r = Inl (BaseExceptionRaised msg) \<and> em (emit_calls w) = EmitRaisesBaseException msg))"
  unfolding update_progress_def
  by (drule emit_progress_safe_cases) (auto simp: store_of_def log_event_def)

lemma update_progress_ok:
  "emit_safe em \<Longrightarrow> fst (update_progress em p w) = Inr ()"
  unfolding update_progress_def by (rule emit_progress_safe_ok)

section \<open>Target resolution\<close>

lemma init_directories_nonempty: "directories (init cp dp drv dirs dirs2) \<noteq> []"
  by (simp add: init_def Let_def)

lemma product_empty_iff:
  "concat (map (\<lambda>drive. map (\<lambda>directory. (drive, directory)) ds) sel) = [] \<longleftrightarrow> sel = [] \<or> ds = []"
  by (induction sel) auto

lemma resolve_targets_Inr:
  "resolve_targets ds rs = Inr ts \<Longrightarrow>
     ts = concat (map (\<lambda>drive. map (\<lambda>directory. (drive, directory)) (directories ds))
            (if drives ds \<noteq> [] then drives ds else rs))
     \<and> set (if drives ds \<noteq> [] then drives ds else rs) \<subseteq> set rs"
  by (auto simp: resolve_targets_def Let_def filter_empty_conv split: if_splits)

lemma resolve_targets_empty:
  assumes "resolve_targets ds rs = Inr []" "directories ds \<noteq> []"
  shows "rs = [] \<and> drives ds = []"
proof -
  from resolve_targets_Inr [OF assms(1)] assms(2)
  have "(if drives ds \<noteq> [] then drives ds else rs) = []"
    using product_empty_iff [of "directories ds" "if drives ds \<noteq> [] then drives ds else rs"] by metis
  then show ?thesis by (auto split: if_splits)
qed

lemma resolve_targets_valid:
  assumes "set (drives ds) \<subseteq> set rs"
  shows "resolve_targets ds rs = Inr (concat (map (\<lambda>drive. map (\<lambda>directory. (drive, directory)) (directories ds))
            (if drives ds \<noteq> [] then drives ds else rs)))"
proof -
  have "filter (\<lambda>d. d \<notin> set rs) (if drives ds \<noteq> [] then drives ds else rs) = []"
    using assms by (auto simp: filter_empty_conv)
  then show ?thesis by (simp add: resolve_targets_def Let_def)
qed

lemma resolve_targets_nonempty:
  assumes "rs \<noteq> []" "set (drives ds) \<subseteq> set rs" "directories ds \<noteq> []"
  shows "\<exists>ts. resolve_targets ds rs = Inr ts \<and> ts \<noteq> []"
proof -
  have "(if drives ds \<noteq> [] then drives ds else rs) \<noteq> []" using assms(1) by simp
  then have "concat (map (\<lambda>drive. map (\<lambda>directory. (drive, directory)) (directories ds))
            (if drives ds \<noteq> [] then drives ds else rs)) \<noteq> []"
    using assms(3) product_empty_iff [of "directories ds" "if drives ds \<noteq> [] then drives ds else rs"] by metis
  then show ?thesis using resolve_targets_valid [OF assms(2)] by simp
qed

lemma emit_progress_safe_error:
  "emit_progress_safe em w = (Inl err, w') \<Longrightarrow> \<exists>msg. err = BaseExceptionRaised msg"
  by (auto simp: emit_progress_safe_def Let_def split: emit_outcome.splits)

lemma update_progress_error:
  "update_progress em p w = (Inl err, w') \<Longrightarrow> \<exists>msg. err = BaseExceptionRaised msg"
  unfolding update_progress_def by (rule emit_progress_safe_error)

lemma py_int_error: "py_int s = Inl err \<Longrightarrow> loop_error err"
  by (auto simp: py_int_def loop_error_def split: if_splits)

lemma parse_line_error: "parse_line dn cd l = Inl err \<Longrightarrow> loop_error err"
  by (auto simp: parse_line_def parse_size_def Let_def split: if_splits sum.splits dest: py_int_error)

lemma flush_batch_error: "flush_batch b w = (Inl err, w') \<Longrightarrow> loop_error err"
  by (drule flush_batch_Inl) (simp add: loop_error_def)

lemma update_progress_loop_error: "update_progress em p w = (Inl err, w') \<Longrightarrow> loop_error err"
  by (drule update_progress_error) (auto simp: loop_error_def)

lemma index_loop_error:
  "index_loop em dn cd ls batch p w = (Inl err, w') \<Longrightarrow> loop_error err"
proof (induction ls arbitrary: batch p w)
  case Nil
  then show ?case by simp
next
  case (Cons l ls)
  show ?case
  proof (cases "parse_line dn cd l")
    case (Inl e1)
    with Cons.prems have "err = e1" by simp
    with Inl show ?thesis using parse_line_error by blast
  next
    case (Inr r)
    show ?thesis
    proof (cases r)
      case None
      with Cons Inr show ?thesis by simp
    next
      case (Some e)
      obtain r0 w1 where f: "(if length (batch @ [e]) \<ge> batch_size then flush_batch (batch @ [e]) w else (Inr (), w)) = (r0, w1)"
        by (cases "if length (batch @ [e]) \<ge> batch_size then flush_batch (batch @ [e]) w else (Inr (), w)") auto
      show ?thesis
      proof (cases r0)
        case (Inl e1)
        with Cons.prems Inr Some f have "err = e1" by (simp add: Let_def)
        with f Inl show ?thesis using flush_batch_error by (auto split: if_splits)
      next
        case u0: (Inr u0)
        obtain r1 w2 where u: "update_progress em (p + 1) w1 = (r1, w2)"
          by (cases "update_progress em (p + 1) w1") auto
        show ?thesis
        proof (cases r1)
          case (Inl e1)
          with Cons.prems Inr Some f u0 u have "err = e1" by (simp add: Let_def)
          with u Inl show ?thesis using update_progress_loop_error by blast
        next
          case u1: (Inr u1)
          with Cons.prems Inr Some f u0 u show ?thesis using Cons.IH by (simp add: Let_def)
        qed
      qed
    qed
  qed
qed

lemma index_target_error:
  "index_target ev dn dp p w = (Inl err, w') \<Longrightarrow> loop_error err \<or> (\<exists>msg. err = RuntimeError msg)"
  unfolding index_target_def Let_def
  by (auto split: prod.splits sum.splits if_splits dest: index_loop_error flush_batch_error)

lemma index_all_error:
  "index_all ev ts p w = (Inl err, w') \<Longrightarrow> loop_error err \<or> (\<exists>msg. err = RuntimeError msg)"
proof (induction ts arbitrary: p w)
  case Nil
  then show ?case by simp
next
  case (Cons t ts)
  obtain dn dp where t: "t = (dn, dp)" by (cases t)
  show ?case
  proof (cases "index_target ev dn dp p w")
    case (Pair r w1)
    show ?thesis
    proof (cases r)
      case (Inl e1)
      with Cons.prems t Pair have "err = e1" by simp
      with Pair Inl show ?thesis using index_target_error by blast
    next
      case (Inr p1)
      with Cons.prems t Pair show ?thesis using Cons.IH by simp
    qed
  qed
qed

lemma loop_error_not_no_targets: "\<not> loop_error (ValueError ''No rclone remotes found to index.'')"
  by (simp add: loop_error_def)

lemma fetch_no_targets_error:
  assumes "fst (fetch ev ds w) = Inl (ValueError ''No rclone remotes found to index.'')"
  shows "resolve_targets ds (sections ev) = Inr []"
proof (cases "resolve_targets ds (sections ev)")
  case (Inl e)
  then have "\<exists>m. e = ValueError (''Requested remotes not in config: '' @ m)"
    by (auto simp: resolve_targets_def Let_def split: if_splits)
  with Inl assms show ?thesis
    by (auto simp: fetch_def validate_config_def split: if_splits)
next
  case (Inr ts)
  show ?thesis
  proof (cases "ts = []")
    case True
    with Inr show ?thesis by simp
  next
    case False
    have "False" using assms Inr False
      apply (simp add: fetch_def validate_config_def Let_def split: if_splits prod.splits sum.splits)
      by (auto dest!: emit_progress_safe_error index_all_error simp: loop_error_not_no_targets)
    then show ?thesis ..
  qed
qed


text \<open>
  Claim C8. The directory list built by the constructor is never empty, the resolver
  returns the product of the selected remotes (outer) and the directories (inner), and an
  empty product means an empty registry with no remote requested: with a non-empty registry
  and an empty or fully valid selection the target list is non-empty, and a run on a
  non-empty registry never fails with the no-targets error.
\<close>

theorem targets_nonempty:
  assumes "ds = init cp dp drives_param dirs_param directories_param"
  shows "directories ds \<noteq> []
    \<and> (resolve_targets ds rs = Inr ts \<longrightarrow>
         ts = concat (map (\<lambda>drive. map (\<lambda>directory. (drive, directory)) (directories ds))
                (if drives ds \<noteq> [] then drives ds else rs)))
    \<and> (resolve_targets ds rs = Inr [] \<longrightarrow> rs = [] \<and> drives ds = [])
    \<and> (rs \<noteq> [] \<and> set (drives ds) \<subseteq> set rs \<longrightarrow> (\<exists>ts'. resolve_targets ds rs = Inr ts' \<and> ts' \<noteq> []))
    \<and> (sections ev \<noteq> [] \<longrightarrow> fst (fetch ev ds w) \<noteq> Inl (ValueError ''No rclone remotes found to index.''))"
proof -
  have d: "directories ds \<noteq> []" using assms init_directories_nonempty by simp
  have a: "resolve_targets ds rs = Inr ts \<longrightarrow>
         ts = concat (map (\<lambda>drive. map (\<lambda>directory. (drive, directory)) (directories ds))
                (if drives ds \<noteq> [] then drives ds else rs))"
    using resolve_targets_Inr by blast
  have b: "resolve_targets ds rs = Inr [] \<longrightarrow> rs = [] \<and> drives ds = []"
    using resolve_targets_empty d by blast
  have c: "rs \<noteq> [] \<and> set (drives ds) \<subseteq> set rs \<longrightarrow> (\<exists>ts'. resolve_targets ds rs = Inr ts' \<and> ts' \<noteq> [])"
    using resolve_targets_nonempty d by blast
  have e: "sections ev \<noteq> [] \<longrightarrow> fst (fetch ev ds w) \<noteq> Inl (ValueError ''No rclone remotes found to index.'')"
    using fetch_no_targets_error [of ev ds w] resolve_targets_empty [of ds "sections ev"] d by blast
  from d a b c e show ?thesis by blast
qed

text \<open>C8 at the selection \<^verbatim>\<open>"a, b"\<close> of a registry of three remotes, directories \<^verbatim>\<open>","\<close>.\<close>

theorem targets_nonempty_witness:
  "directories (init ''rclone.conf'' ''my_files.sqlite'' (PStr ''a, b'') (PStr '','') PNone) = [[]]
   \<and> resolve_targets (init ''rclone.conf'' ''my_files.sqlite'' (PStr ''a, b'') (PStr '','') PNone) [''a'', ''b'', ''c'']
       = Inr [(''a'', []), (''b'', [])]
   \<and> (\<exists>ts'. resolve_targets (init ''rclone.conf'' ''my_files.sqlite'' (PStr ''a, b'') (PStr '','') PNone) [''a'', ''b'', ''c'']
         = Inr ts' \<and> ts' \<noteq> [])"
proof -
  let ?ds = "init ''rclone.conf'' ''my_files.sqlite'' (PStr ''a, b'') (PStr '','') PNone"
  have dr: "drives ?ds = [''a'', ''b'']"
    by (simp add: init_def list_param_def py_or_def truthy_def py_strip_def strip_chars_def
        lstrip_chars_def rstrip_chars_def is_space_def Let_def)
  have di: "directories ?ds = [[]]"
    by (simp add: init_def list_param_def py_or_def truthy_def py_strip_def strip_chars_def
        lstrip_chars_def rstrip_chars_def is_space_def Let_def)
  have r: "resolve_targets ?ds [''a'', ''b'', ''c''] = Inr [(''a'', []), (''b'', [])]"
    by (simp add: resolve_targets_def dr di Let_def)
  have h: "[''a'', ''b'', ''c''] \<noteq> [] \<and> set (drives ?ds) \<subseteq> set [''a'', ''b'', ''c'']"
    by (simp add: dr)
  from targets_nonempty [of ?ds "''rclone.conf''" "''my_files.sqlite''" "PStr ''a, b''" "PStr '',''" PNone
      "[''a'', ''b'', ''c'']" "[(''a'', []), (''b'', [])]"] h
  have "\<exists>ts'. resolve_targets ?ds [''a'', ''b'', ''c''] = Inr ts' \<and> ts' \<noteq> []" by blast
  with di r show ?thesis by blast
qed

lemma fetch_unknown_remote:
  assumes "filter (\<lambda>d. d \<notin> set (sections ev)) (drives ds) \<noteq> []"
  shows "resolve_targets ds (sections ev)
     = Inl (ValueError (''Requested remotes not in config: '' @ join '', '' (filter (\<lambda>d. d \<notin> set (sections ev)) (drives ds))))"
proof -
  from assms have "drives ds \<noteq> []" by auto
  with assms show ?thesis by (simp add: resolve_targets_def Let_def)
qed

text \<open>
  Claim C7. When a requested remote is absent from the registry the run fails and leaves
  the world as it found it: no directory is made, no connection opened, no row changed.
  Past the configuration checks the error is the \<^verbatim>\<open>ValueError\<close> whose message lists the
  missing names, all of them, in the order requested.
\<close>

theorem unknown_remote_rejected:
  assumes "\<exists>d \<in> set (drives ds). d \<notin> set (sections ev)"
  shows "snd (fetch ev ds w) = w
    \<and> (\<exists>err. fst (fetch ev ds w) = Inl err)
    \<and> (config_exists ev \<and> rclone_installed ev \<longrightarrow>
         fst (fetch ev ds w) = Inl (ValueError (''Requested remotes not in config: ''
            @ join '', '' (filter (\<lambda>d. d \<notin> set (sections ev)) (drives ds)))))
    \<and> set (filter (\<lambda>d. d \<notin> set (sections ev)) (drives ds)) = set (drives ds) - set (sections ev)"
proof -
  from assms have m: "filter (\<lambda>d. d \<notin> set (sections ev)) (drives ds) \<noteq> []"
    by (auto simp: filter_empty_conv)
  note r = fetch_unknown_remote [OF m]
  have 1: "snd (fetch ev ds w) = w"
    by (simp add: fetch_def r validate_config_def)
  have 2: "\<exists>err. fst (fetch ev ds w) = Inl err"
    by (simp add: fetch_def r validate_config_def)
  have 3: "config_exists ev \<and> rclone_installed ev \<longrightarrow>
         fst (fetch ev ds w) = Inl (ValueError (''Requested remotes not in config: ''
            @ join '', '' (filter (\<lambda>d. d \<notin> set (sections ev)) (drives ds))))"
    by (simp add: fetch_def r validate_config_def)
  have 4: "set (filter (\<lambda>d. d \<notin> set (sections ev)) (drives ds)) = set (drives ds) - set (sections ev)"
    by auto
  from 1 2 3 4 show ?thesis by blast
qed

text \<open>C7 at the request \<^verbatim>\<open>a, x\<close> against the registry \<^verbatim>\<open>a, b\<close>: exactly \<^verbatim>\<open>x\<close> is listed.\<close>

theorem unknown_remote_rejected_witness:
  "fetch env_ab \<lparr>rclone_config_path = ''rclone.conf'', sqlite_path = ''my_files.sqlite'',
       drives = [''a'', ''x''], directories = [[]]\<rparr> \<lparr>db_rows = [], db_seq = 0, trace = [], emit_calls = 0\<rparr>
     = (Inl (ValueError ''Requested remotes not in config: x''),
        \<lparr>db_rows = [], db_seq = 0, trace = [], emit_calls = 0\<rparr>)"
proof -
  let ?ds = "\<lparr>rclone_config_path = ''rclone.conf'', sqlite_path = ''my_files.sqlite'',
       drives = [''a'', ''x''], directories = [[]]\<rparr>"
  let ?w = "\<lparr>db_rows = [], db_seq = 0, trace = [], emit_calls = 0\<rparr>"
  have h: "\<exists>d \<in> set (drives ?ds). d \<notin> set (sections env_ab)" by (simp add: env_ab_def)
  have c: "config_exists env_ab \<and> rclone_installed env_ab" by (simp add: env_ab_def)
  have f: "filter (\<lambda>d. d \<notin> set (sections env_ab)) (drives ?ds) = [''x'']" by (simp add: env_ab_def)
  from unknown_remote_rejected [OF h, of ?w] c f
  have "snd (fetch env_ab ?ds ?w) = ?w \<and> fst (fetch env_ab ?ds ?w) = Inl (ValueError ''Requested remotes not in config: x'')"
    by simp
  then show ?thesis by (metis prod.collapse)
qed

section \<open>The ingestion loop, batch by batch\<close>

lemma parsed_records_Nil: "parsed_records dn cd [] = []"
  by (simp add: parsed_records_def map_filter_simps)

lemma parsed_records_None: "parse_line dn cd l = Inr None \<Longrightarrow> parsed_records dn cd (l # ls) = parsed_records dn cd ls"
  by (simp add: parsed_records_def record_of_line_def map_filter_simps)

lemma parsed_records_Some: "parse_line dn cd l = Inr (Some e) \<Longrightarrow> parsed_records dn cd (l # ls) = e # parsed_records dn cd ls"
  by (simp add: parsed_records_def record_of_line_def map_filter_simps)

lemma parsed_records_raise: "parse_line dn cd l = Inl err \<Longrightarrow> parsed_records dn cd (l # ls) = parsed_records dn cd ls"
  by (simp add: parsed_records_def record_of_line_def map_filter_simps)

lemma parsed_records_append: "parsed_records dn cd (xs @ ys) = parsed_records dn cd xs @ parsed_records dn cd ys"
  by (simp add: parsed_records_def map_filter_def)

lemma no_line_raises_Cons:
  "no_line_raises dn cd (l # ls) = (\<not> isl (parse_line dn cd l) \<and> no_line_raises dn cd ls)"
  by (simp add: no_line_raises_def)

lemma no_line_raises_append:
  "no_line_raises dn cd (xs @ ys) = (no_line_raises dn cd xs \<and> no_line_raises dn cd ys)"
  by (simp add: no_line_raises_def)

lemma py_int_decimal:
  assumes "s \<noteq> []" "list_all is_decimal s" "length s \<le> int_max_str_digits"
  shows "py_int s = Inr (int_of_digits s)"
proof -
  have "length (takeWhile is_decimal s) \<le> length s" by (rule length_takeWhile_le)
  with assms(3) have "\<not> length (takeWhile is_decimal s) > int_max_str_digits" by linarith
  with assms(1,2) show ?thesis by (simp add: py_int_def)
qed

lemma size_field_ok_no_raise:
  assumes "size_field_ok l"
  shows "\<not> isl (parse_line dn cd l)"
proof -
  let ?parts = "split_on (CHR 0x09) (rstrip_chars is_newline l)"
  have "\<not> isl (parse_size ?parts)"
  proof (cases "length ?parts > 2 \<and> isdigit (?parts ! 2)")
    case True
    with assms have "list_all is_decimal (?parts ! 2)" "length (?parts ! 2) \<le> int_max_str_digits"
      by (simp_all add: size_field_ok_def Let_def)
    moreover from True have "?parts ! 2 \<noteq> []" by (simp add: isdigit_def)
    ultimately have "py_int (?parts ! 2) = Inr (int_of_digits (?parts ! 2))"
      using py_int_decimal by blast
    with True show ?thesis by (simp add: parse_size_def)
  next
    case False
    then show ?thesis by (auto simp: parse_size_def)
  qed
  then show ?thesis
    by (cases "parse_size ?parts") (simp_all add: parse_line_def Let_def)
qed

lemma lines_ok_no_raise: "list_all size_field_ok ls \<Longrightarrow> no_line_raises dn cd ls"
  by (induction ls) (simp_all add: no_line_raises_def size_field_ok_no_raise)

lemma index_loop_None:
  "parse_line dn cd l = Inr None \<Longrightarrow> index_loop em dn cd (l # ls) batch p w = index_loop em dn cd ls batch p w"
  by simp

lemma index_loop_raise:
  "parse_line dn cd l = Inl err \<Longrightarrow> index_loop em dn cd (l # ls) batch p w = (Inl err, w)"
  by simp

lemma index_loop_Some:
  "parse_line dn cd l = Inr (Some e) \<Longrightarrow>
   index_loop em dn cd (l # ls) batch p w =
     (case (if length (batch @ [e]) \<ge> batch_size then flush_batch (batch @ [e]) w else (Inr (), w)) of
        (Inl err, w1) \<Rightarrow> (Inl err, w1)
      | (Inr u0, w1) \<Rightarrow>
          (case update_progress em (p + 1) w1 of
             (Inl err, w2) \<Rightarrow> (Inl err, w2)
           | (Inr u, w2) \<Rightarrow> index_loop em dn cd ls (if length (batch @ [e]) \<ge> batch_size then [] else batch @ [e]) (p + 1) w2))"
  by (simp add: Let_def split: prod.splits sum.splits)

lemma index_loop_Some_Inr:
  assumes "parse_line dn cd l = Inr (Some e)" "index_loop em dn cd (l # ls) batch p w = (Inr (b', p'), w')"
  shows "\<exists>w1 w2. (if length (batch @ [e]) \<ge> batch_size then flush_batch (batch @ [e]) w else (Inr (), w)) = (Inr (), w1)
     \<and> update_progress em (p + 1) w1 = (Inr (), w2)
     \<and> index_loop em dn cd ls (if length (batch @ [e]) \<ge> batch_size then [] else batch @ [e]) (p + 1) w2 = (Inr (b', p'), w')"
  using assms(2)
  by (auto simp add: index_loop_Some [OF assms(1)] simp del: index_loop.simps split: sum.splits prod.splits)

lemma full_batches_small: "n < batch_size \<Longrightarrow> full_batches n = 0"
  by (simp add: full_batches_def)

lemma full_batches_add: "full_batches (batch_size + n) = batch_size + full_batches n"
proof -
  have "(500 + n) div 500 = Suc (n div 500)" by simp
  then show ?thesis by (simp add: full_batches_def batch_size_def)
qed

lemma full_batches_le: "full_batches n \<le> n"
  by (simp add: full_batches_def)

lemma take_length_add: "take (length xs + n) (xs @ ys) = xs @ take n ys"
  by simp

lemma drop_length_add: "drop (length xs + n) (xs @ ys) = drop n ys"
  by simp

lemma list_all_take: "list_all P xs \<Longrightarrow> list_all P (take n xs)"
  by (metis append_take_drop_id list_all_append)

text \<open>
  A loop that ends normally has read every line without raising, has written and committed
  the records of the whole batches, all of them storable, and holds the rest as its batch.
\<close>

lemma index_loop_Inr:
  assumes "index_loop em dn cd ls batch p w = (Inr (b', p'), w')" "length batch < batch_size"
  shows "b' = drop (full_batches (length (batch @ parsed_records dn cd ls))) (batch @ parsed_records dn cd ls)
     \<and> p' = p + int (length (parsed_records dn cd ls))
     \<and> store_of w' = upsert_all (take (full_batches (length (batch @ parsed_records dn cd ls))) (batch @ parsed_records dn cd ls)) (store_of w)
     \<and> committed (trace w') = committed (trace w) @ take (full_batches (length (batch @ parsed_records dn cd ls))) (batch @ parsed_records dn cd ls)
     \<and> no_line_raises dn cd ls
     \<and> list_all storable (take (full_batches (length (batch @ parsed_records dn cd ls))) (batch @ parsed_records dn cd ls))"
  using assms
proof (induction ls arbitrary: batch p w)
  case Nil
  then show ?case
    by (simp add: parsed_records_Nil full_batches_small upsert_all_Nil no_line_raises_def)
next
  case (Cons l ls)
  show ?case
  proof (cases "parse_line dn cd l")
    case (Inl err)
    with Cons.prems(1) show ?thesis by simp
  next
    case (Inr r)
    show ?thesis
    proof (cases r)
      case None
      with Inr have pl: "parse_line dn cd l = Inr None" by simp
      from Cons.prems(1) have "index_loop em dn cd ls batch p w = (Inr (b', p'), w')"
        by (simp only: index_loop_None [OF pl])
      from Cons.IH [OF this Cons.prems(2)] show ?thesis
        by (simp only: parsed_records_None [OF pl] no_line_raises_Cons pl) simp
    next
      case (Some e)
      with Inr have pl: "parse_line dn cd l = Inr (Some e)" by simp
      let ?recs = "parsed_records dn cd ls"
      let ?b2 = "if length (batch @ [e]) \<ge> batch_size then [] else batch @ [e]"
      from index_loop_Some_Inr [OF pl Cons.prems(1)] obtain w1 w2 where
        f: "(if length (batch @ [e]) \<ge> batch_size then flush_batch (batch @ [e]) w else (Inr (), w)) = (Inr (), w1)"
        and u: "update_progress em (p + 1) w1 = (Inr (), w2)"
        and rec: "index_loop em dn cd ls ?b2 (p + 1) w2 = (Inr (b', p'), w')"
        by blast
      from update_progress_cases [OF u]
      have st: "store_of w2 = store_of w1"
        and tr: "trace w2 = trace w1 @ [SetProcessedItems (p + 1), SetProcessingTime, EmitProgress (em (emit_calls w1))]"
        by auto
      have b2: "length ?b2 < batch_size" using Cons.prems(2) by (auto simp: batch_size_def)
      note ih = Cons.IH [OF rec b2]
      have pr: "parsed_records dn cd (l # ls) = e # ?recs" by (rule parsed_records_Some [OF pl])
      have nr: "no_line_raises dn cd (l # ls) = no_line_raises dn cd ls"
        by (simp add: no_line_raises_Cons pl)
      show ?thesis
      proof (cases "length (batch @ [e]) \<ge> batch_size")
        case True
        with Cons.prems(2) have len: "length (batch @ [e]) = batch_size" by simp
        have fb: "full_batches (length (batch @ e # ?recs)) = batch_size + full_batches (length ?recs)"
        proof -
          have "length (batch @ e # ?recs) = batch_size + length ?recs" using len by simp
          then show ?thesis by (simp only: full_batches_add)
        qed
        have tk: "take (batch_size + full_batches (length ?recs)) (batch @ e # ?recs)
            = (batch @ [e]) @ take (full_batches (length ?recs)) ?recs"
          using take_length_add [of "batch @ [e]" "full_batches (length ?recs)" ?recs]
          by (simp only: len append_assoc append_Cons append_Nil)
        have dr: "drop (batch_size + full_batches (length ?recs)) (batch @ e # ?recs)
            = drop (full_batches (length ?recs)) ?recs"
          using drop_length_add [of "batch @ [e]" "full_batches (length ?recs)" ?recs]
          by (simp only: len append_assoc append_Cons append_Nil)
        from True f have fl: "flush_batch (batch @ [e]) w = (Inr (), w1)" by simp
        note fr = flush_batch_Inr [OF fl]
        from fr st have st': "store_of w2 = upsert_all (batch @ [e]) (store_of w)" by simp
        from fr tr have tr': "committed (trace w2) = committed (trace w) @ (batch @ [e])"
          by (simp add: committed_append)
        from fr have sb: "list_all storable (batch @ [e])" by simp
        from ih True show ?thesis
          unfolding pr fb tk dr nr
          using sb by (simp add: st' tr' upsert_all_append upsert_all_Cons upsert_all_Nil)
      next
        case False
        with f have w1: "w1 = w" by simp
        from st w1 have st': "store_of w2 = store_of w" by simp
        from tr w1 have tr': "committed (trace w2) = committed (trace w)"
          by (simp add: committed_append)
        have eq: "batch @ e # ?recs = (batch @ [e]) @ ?recs" by simp
        have len: "int (length (e # ?recs)) = 1 + int (length ?recs)" by simp
        from ih have ih': "b' = drop (full_batches (length ((batch @ [e]) @ ?recs))) ((batch @ [e]) @ ?recs)
           \<and> p' = p + 1 + int (length ?recs)
           \<and> store_of w' = upsert_all (take (full_batches (length ((batch @ [e]) @ ?recs))) ((batch @ [e]) @ ?recs)) (store_of w2)
           \<and> committed (trace w') = committed (trace w2) @ take (full_batches (length ((batch @ [e]) @ ?recs))) ((batch @ [e]) @ ?recs)
           \<and> no_line_raises dn cd ls
           \<and> list_all storable (take (full_batches (length ((batch @ [e]) @ ?recs))) ((batch @ [e]) @ ?recs))"
          by (simp only: False if_False)
        show ?thesis unfolding pr eq nr using ih' by (simp only: st' tr' len add.assoc)
      qed
    qed
  qed
qed

text \<open>
  Conversely the loop ends normally when the emitter raises nothing outside
  \<^verbatim>\<open>Exception\<close>, no size field makes \<^verbatim>\<open>int\<close> raise and the records of the whole
  batches are storable.
\<close>

lemma index_loop_total:
  assumes "emit_safe em"
  shows "no_line_raises dn cd ls \<Longrightarrow> length batch < batch_size \<Longrightarrow>
     list_all storable (take (full_batches (length (batch @ parsed_records dn cd ls))) (batch @ parsed_records dn cd ls)) \<Longrightarrow>
     \<exists>b' p' w'. index_loop em dn cd ls batch p w = (Inr (b', p'), w')"
proof (induction ls arbitrary: batch p w)
  case Nil
  show ?case by simp
next
  case (Cons l ls)
  from Cons.prems(1) have nl: "\<not> isl (parse_line dn cd l)" and nr: "no_line_raises dn cd ls"
    by (simp_all add: no_line_raises_Cons)
  from nl obtain r where Inr: "parse_line dn cd l = Inr r" by (cases "parse_line dn cd l") auto
  show ?case
  proof (cases r)
    case None
    with Inr have pl: "parse_line dn cd l = Inr None" by simp
    from Cons.prems(3) have "list_all storable (take (full_batches (length (batch @ parsed_records dn cd ls))) (batch @ parsed_records dn cd ls))"
      by (simp only: parsed_records_None [OF pl])
    from Cons.IH [OF nr Cons.prems(2) this] show ?thesis by (simp only: index_loop_None [OF pl])
  next
    case (Some e)
    with Inr have pl: "parse_line dn cd l = Inr (Some e)" by simp
    let ?recs = "parsed_records dn cd ls"
    let ?b2 = "if length (batch @ [e]) \<ge> batch_size then [] else batch @ [e]"
    have pr: "parsed_records dn cd (l # ls) = e # ?recs" by (rule parsed_records_Some [OF pl])
    have b2: "length ?b2 < batch_size" using Cons.prems(2) by (auto simp: batch_size_def)
    have "\<exists>w1. (if length (batch @ [e]) \<ge> batch_size then flush_batch (batch @ [e]) w else (Inr (), w)) = (Inr (), w1)
        \<and> list_all storable (take (full_batches (length (?b2 @ ?recs))) (?b2 @ ?recs))"
    proof (cases "length (batch @ [e]) \<ge> batch_size")
      case True
      with Cons.prems(2) have len: "length (batch @ [e]) = batch_size" by simp
      have fb: "full_batches (length (batch @ e # ?recs)) = batch_size + full_batches (length ?recs)"
      proof -
        have "length (batch @ e # ?recs) = batch_size + length ?recs" using len by simp
        then show ?thesis by (simp only: full_batches_add)
      qed
      have tk: "take (batch_size + full_batches (length ?recs)) (batch @ e # ?recs)
          = (batch @ [e]) @ take (full_batches (length ?recs)) ?recs"
        using take_length_add [of "batch @ [e]" "full_batches (length ?recs)" ?recs]
        by (simp only: len append_assoc append_Cons append_Nil)
      from Cons.prems(3) have "list_all storable ((batch @ [e]) @ take (full_batches (length ?recs)) ?recs)"
        by (simp only: pr fb tk)
      then have sb: "list_all storable (batch @ [e])" and sr: "list_all storable (take (full_batches (length ?recs)) ?recs)"
        by simp_all
      from flush_batch_storable [OF sb, of w] obtain w1 where "flush_batch (batch @ [e]) w = (Inr (), w1)" by blast
      with True sr show ?thesis by simp
    next
      case False
      have eq: "batch @ e # ?recs = (batch @ [e]) @ ?recs" by simp
      from Cons.prems(3) have "list_all storable (take (full_batches (length ((batch @ [e]) @ ?recs))) ((batch @ [e]) @ ?recs))"
        by (simp only: pr eq)
      with False show ?thesis by simp
    qed
    then obtain w1 where
      f: "(if length (batch @ [e]) \<ge> batch_size then flush_batch (batch @ [e]) w else (Inr (), w)) = (Inr (), w1)"
      and s2: "list_all storable (take (full_batches (length (?b2 @ ?recs))) (?b2 @ ?recs))"
      by blast
    obtain r1 w2 where u: "update_progress em (p + 1) w1 = (r1, w2)"
      by (cases "update_progress em (p + 1) w1") auto
    with update_progress_ok [OF assms, of "p + 1" w1] have r1: "r1 = Inr ()" by simp
    from Cons.IH [OF nr b2 s2, of "p + 1" w2]
    obtain b' p' w' where "index_loop em dn cd ls ?b2 (p + 1) w2 = (Inr (b', p'), w')" by blast
    with f u r1 show ?thesis
      by (simp add: index_loop_Some [OF pl] del: index_loop.simps)
  qed
qed

text \<open>
  However the loop ends, what it has committed is a number of whole batches from the front
  of the records, and the store is the store before with exactly these upserted.
\<close>

lemma index_loop_any:
  assumes "index_loop em dn cd ls batch p w = (r, w')" "length batch < batch_size"
  shows "\<exists>k. k * batch_size \<le> length (batch @ parsed_records dn cd ls)
     \<and> committed (trace w') = committed (trace w) @ take (k * batch_size) (batch @ parsed_records dn cd ls)
     \<and> store_of w' = upsert_all (take (k * batch_size) (batch @ parsed_records dn cd ls)) (store_of w)"
  using assms
proof (induction ls arbitrary: batch p w)
  case Nil
  then have "w' = w" by simp
  then have "0 * batch_size \<le> length (batch @ parsed_records dn cd [])
     \<and> committed (trace w') = committed (trace w) @ take (0 * batch_size) (batch @ parsed_records dn cd [])
     \<and> store_of w' = upsert_all (take (0 * batch_size) (batch @ parsed_records dn cd [])) (store_of w)"
    by (simp add: upsert_all_Nil)
  then show ?case by blast
next
  case (Cons l ls)
  let ?recs = "parsed_records dn cd ls"
  let ?all = "batch @ parsed_records dn cd (l # ls)"
  have zero: "\<exists>k. k * batch_size \<le> length ?all
     \<and> committed (trace w') = committed (trace w) @ take (k * batch_size) ?all
     \<and> store_of w' = upsert_all (take (k * batch_size) ?all) (store_of w)"
    if "committed (trace w') = committed (trace w)" "store_of w' = store_of w"
  proof -
    from that have "0 * batch_size \<le> length ?all
     \<and> committed (trace w') = committed (trace w) @ take (0 * batch_size) ?all
     \<and> store_of w' = upsert_all (take (0 * batch_size) ?all) (store_of w)"
      by (simp add: upsert_all_Nil)
    then show ?thesis by blast
  qed
  show ?case
  proof (cases "parse_line dn cd l")
    case (Inl err)
    with Cons.prems(1) have "w' = w" by simp
    then show ?thesis using zero by simp
  next
    case (Inr r0)
    show ?thesis
    proof (cases r0)
      case None
      with Inr have pl: "parse_line dn cd l = Inr None" by simp
      from Cons.prems(1) have "index_loop em dn cd ls batch p w = (r, w')"
        by (simp only: index_loop_None [OF pl])
      from Cons.IH [OF this Cons.prems(2)] show ?thesis
        by (simp only: parsed_records_None [OF pl])
    next
      case (Some e)
      with Inr have pl: "parse_line dn cd l = Inr (Some e)" by simp
      have pr: "parsed_records dn cd (l # ls) = e # ?recs" by (rule parsed_records_Some [OF pl])
      let ?b2 = "if length (batch @ [e]) \<ge> batch_size then [] else batch @ [e]"
      have b2: "length ?b2 < batch_size" using Cons.prems(2) by (auto simp: batch_size_def)
      obtain rf w1 where f: "(if length (batch @ [e]) \<ge> batch_size then flush_batch (batch @ [e]) w else (Inr (), w)) = (rf, w1)"
        by (cases "if length (batch @ [e]) \<ge> batch_size then flush_batch (batch @ [e]) w else (Inr (), w)") auto
      show ?thesis
      proof (cases rf)
        case (Inl e1)
        with Cons.prems(1) f have w': "w' = w1"
          by (simp add: index_loop_Some [OF pl] del: index_loop.simps)
        from f Inl have "flush_batch (batch @ [e]) w = (Inl e1, w1)" by (auto split: if_splits)
        from flush_batch_Inl [OF this] w' have "w' = w" by simp
        then show ?thesis using zero by simp
      next
        case rf: (Inr u0)
        obtain r1 w2 where u: "update_progress em (p + 1) w1 = (r1, w2)"
          by (cases "update_progress em (p + 1) w1") auto
        from update_progress_cases [OF u]
        have st: "store_of w2 = store_of w1"
          and tr: "trace w2 = trace w1 @ [SetProcessedItems (p + 1), SetProcessingTime, EmitProgress (em (emit_calls w1))]"
          by auto
        from tr have cm: "committed (trace w2) = committed (trace w1)" by (simp add: committed_append)
        have res: "(\<exists>err. r1 = Inl err \<and> w' = w2) \<or> (r1 = Inr () \<and> index_loop em dn cd ls ?b2 (p + 1) w2 = (r, w'))"
          using Cons.prems(1) f rf u
          by (cases r1) (simp_all add: index_loop_Some [OF pl] del: index_loop.simps)
        show ?thesis
        proof (cases "length (batch @ [e]) \<ge> batch_size")
          case True
          with Cons.prems(2) have len: "length (batch @ [e]) = batch_size" by simp
          from True f rf have fl: "flush_batch (batch @ [e]) w = (Inr (), w1)" by simp
          note fr = flush_batch_Inr [OF fl]
          from fr st have st1: "store_of w2 = upsert_all (batch @ [e]) (store_of w)" by simp
          from fr cm have cm1: "committed (trace w2) = committed (trace w) @ (batch @ [e])"
            by (simp add: committed_append)
          have tk: "take (batch_size + n) (batch @ e # ?recs) = (batch @ [e]) @ take n ?recs" for n
            using take_length_add [of "batch @ [e]" n ?recs]
            by (simp only: len append_assoc append_Cons append_Nil)
          from res show ?thesis
          proof
            assume "\<exists>err. r1 = Inl err \<and> w' = w2"
            then have w': "w' = w2" by blast
            have "Suc 0 * batch_size \<le> length ?all
              \<and> committed (trace w') = committed (trace w) @ take (Suc 0 * batch_size) ?all
              \<and> store_of w' = upsert_all (take (Suc 0 * batch_size) ?all) (store_of w)"
              using tk [of 0] len by (simp add: pr w' st1 cm1)
            then show ?thesis by blast
          next
            assume "r1 = Inr () \<and> index_loop em dn cd ls ?b2 (p + 1) w2 = (r, w')"
            then have rec: "index_loop em dn cd ls ?b2 (p + 1) w2 = (r, w')" by blast
            from Cons.IH [OF rec b2] True obtain k where
              k: "k * batch_size \<le> length ?recs"
                 "committed (trace w') = committed (trace w2) @ take (k * batch_size) ?recs"
                 "store_of w' = upsert_all (take (k * batch_size) ?recs) (store_of w2)"
              by auto
            have "Suc k * batch_size \<le> length ?all
              \<and> committed (trace w') = committed (trace w) @ take (Suc k * batch_size) ?all
              \<and> store_of w' = upsert_all (take (Suc k * batch_size) ?all) (store_of w)"
              using tk [of "k * batch_size"] len k
              by (simp add: pr st1 cm1 upsert_all_append upsert_all_Cons upsert_all_Nil)
            then show ?thesis by blast
          qed
        next
          case False
          with f have w1: "w1 = w" by simp
          from res show ?thesis
          proof
            assume "\<exists>err. r1 = Inl err \<and> w' = w2"
            then have "w' = w2" by blast
            with st cm w1 show ?thesis using zero by simp
          next
            assume "r1 = Inr () \<and> index_loop em dn cd ls ?b2 (p + 1) w2 = (r, w')"
            then have rec: "index_loop em dn cd ls ?b2 (p + 1) w2 = (r, w')" by blast
            have eq: "batch @ e # ?recs = (batch @ [e]) @ ?recs" by simp
            from Cons.IH [OF rec b2] False obtain k where
              "k * batch_size \<le> length ((batch @ [e]) @ ?recs)
               \<and> committed (trace w') = committed (trace w2) @ take (k * batch_size) ((batch @ [e]) @ ?recs)
               \<and> store_of w' = upsert_all (take (k * batch_size) ((batch @ [e]) @ ?recs)) (store_of w2)"
              by (auto simp only: if_False)
            then have "k * batch_size \<le> length ?all
              \<and> committed (trace w') = committed (trace w) @ take (k * batch_size) ?all
              \<and> store_of w' = upsert_all (take (k * batch_size) ?all) (store_of w)"
              unfolding pr eq using st cm w1 by simp
            then show ?thesis by blast
          qed
        qed
      qed
    qed
  qed
qed

lemma full_batches_take_drop: "take (full_batches (length xs)) xs @ drop (full_batches (length xs)) xs = xs"
  by simp

lemma index_target_Inr:
  assumes "index_target ev dn dp p w = (Inr p', w')"
  shows "lsf_returncode (lsf_run ev (target_of dn (clean_dir_of dp))) = 0
     \<and> p' = p + int (length (parsed_records dn (clean_dir_of dp) (lsf_lines (lsf_run ev (target_of dn (clean_dir_of dp))))))
     \<and> store_of w' = upsert_all (parsed_records dn (clean_dir_of dp) (lsf_lines (lsf_run ev (target_of dn (clean_dir_of dp))))) (store_of w)
     \<and> committed (trace w') = committed (trace w) @ parsed_records dn (clean_dir_of dp) (lsf_lines (lsf_run ev (target_of dn (clean_dir_of dp))))
     \<and> no_line_raises dn (clean_dir_of dp) (lsf_lines (lsf_run ev (target_of dn (clean_dir_of dp))))
     \<and> list_all storable (parsed_records dn (clean_dir_of dp) (lsf_lines (lsf_run ev (target_of dn (clean_dir_of dp)))))"
proof -
  let ?t = "target_of dn (clean_dir_of dp)"
  let ?recs = "parsed_records dn (clean_dir_of dp) (lsf_lines (lsf_run ev ?t))"
  let ?w0 = "log_event (ListRun ?t) w"
  obtain r w1 where l: "index_loop (emitter ev) dn (clean_dir_of dp) (lsf_lines (lsf_run ev ?t)) [] p ?w0 = (r, w1)"
    by (cases "index_loop (emitter ev) dn (clean_dir_of dp) (lsf_lines (lsf_run ev ?t)) [] p ?w0") auto
  from assms l obtain b where r: "r = Inr (b, p')" and rc: "lsf_returncode (lsf_run ev ?t) = 0"
    and w': "if b \<noteq> [] then flush_batch b w1 = (Inr (), w') else w' = w1"
    by (auto simp: index_target_def Let_def split: sum.splits if_splits prod.splits)
  have "length ([]::entry list) < batch_size" by (simp add: batch_size_def)
  from index_loop_Inr [OF l [unfolded r] this]
  have b: "b = drop (full_batches (length ?recs)) ?recs"
    and p: "p' = p + int (length ?recs)"
    and st: "store_of w1 = upsert_all (take (full_batches (length ?recs)) ?recs) (store_of ?w0)"
    and tr: "committed (trace w1) = committed (trace ?w0) @ take (full_batches (length ?recs)) ?recs"
    and nr: "no_line_raises dn (clean_dir_of dp) (lsf_lines (lsf_run ev ?t))"
    and sf: "list_all storable (take (full_batches (length ?recs)) ?recs)"
    by simp_all
  have st0: "store_of ?w0 = store_of w" by (rule store_of_log_event)
  have tr0: "committed (trace ?w0) = committed (trace w)" by (simp add: log_event_def committed_append)
  have fin: "store_of w' = upsert_all b (store_of w1) \<and> committed (trace w') = committed (trace w1) @ b
      \<and> list_all storable b"
  proof (cases "b = []")
    case True
    with w' show ?thesis by (simp add: upsert_all_Nil)
  next
    case False
    with w' have "flush_batch b w1 = (Inr (), w')" by simp
    from flush_batch_Inr [OF this] show ?thesis by (simp add: committed_append)
  qed
  from fin have "store_of w' = upsert_all (take (full_batches (length ?recs)) ?recs @ b) (store_of w)"
    by (simp only: upsert_all_append st st0)
  then have st': "store_of w' = upsert_all ?recs (store_of w)"
    unfolding b by (simp only: full_batches_take_drop)
  from fin have "committed (trace w') = committed (trace w) @ (take (full_batches (length ?recs)) ?recs @ b)"
    by (simp only: tr tr0 append_assoc)
  then have tr': "committed (trace w') = committed (trace w) @ ?recs"
    unfolding b by (simp only: full_batches_take_drop)
  from sf fin have "list_all storable (take (full_batches (length ?recs)) ?recs @ b)" by simp
  then have sa: "list_all storable ?recs"
    unfolding b by (simp only: full_batches_take_drop)
  from rc p st' tr' nr sa show ?thesis by blast
qed

lemma index_target_listing_failed:
  assumes "lsf_returncode (lsf_run ev (target_of dn (clean_dir_of dp))) \<noteq> 0" "emit_safe (emitter ev)"
    "no_line_raises dn (clean_dir_of dp) (lsf_lines (lsf_run ev (target_of dn (clean_dir_of dp))))"
    "list_all storable (take (full_batches (length (parsed_records dn (clean_dir_of dp) (lsf_lines (lsf_run ev (target_of dn (clean_dir_of dp)))))))
            (parsed_records dn (clean_dir_of dp) (lsf_lines (lsf_run ev (target_of dn (clean_dir_of dp))))))"
  shows "\<exists>w'. index_target ev dn dp p w =
        (Inl (RuntimeError (''rclone lsf failed for '' @ target_of dn (clean_dir_of dp) @ '': ''
              @ py_strip (lsf_stderr (lsf_run ev (target_of dn (clean_dir_of dp)))))), w')
     \<and> store_of w' = upsert_all (take (full_batches (length (parsed_records dn (clean_dir_of dp) (lsf_lines (lsf_run ev (target_of dn (clean_dir_of dp)))))))
            (parsed_records dn (clean_dir_of dp) (lsf_lines (lsf_run ev (target_of dn (clean_dir_of dp)))))) (store_of w)
     \<and> committed (trace w') = committed (trace w) @ take (full_batches (length (parsed_records dn (clean_dir_of dp) (lsf_lines (lsf_run ev (target_of dn (clean_dir_of dp)))))))
            (parsed_records dn (clean_dir_of dp) (lsf_lines (lsf_run ev (target_of dn (clean_dir_of dp)))))"
proof -
  let ?t = "target_of dn (clean_dir_of dp)"
  let ?recs = "parsed_records dn (clean_dir_of dp) (lsf_lines (lsf_run ev ?t))"
  let ?w0 = "log_event (ListRun ?t) w"
  have e: "length ([]::entry list) < batch_size" by (simp add: batch_size_def)
  from assms(4) have "list_all storable (take (full_batches (length ([] @ ?recs))) ([] @ ?recs))" by simp
  from index_loop_total [OF assms(2) assms(3) e this]
  obtain b p1 w1 where l: "index_loop (emitter ev) dn (clean_dir_of dp) (lsf_lines (lsf_run ev ?t)) [] p ?w0 = (Inr (b, p1), w1)"
    by blast
  from index_loop_Inr [OF l e]
  have st: "store_of w1 = upsert_all (take (full_batches (length ?recs)) ?recs) (store_of ?w0)"
    and tr: "committed (trace w1) = committed (trace ?w0) @ take (full_batches (length ?recs)) ?recs"
    by simp_all
  have st0: "store_of ?w0 = store_of w" by (rule store_of_log_event)
  have tr0: "committed (trace ?w0) = committed (trace w)" by (simp add: log_event_def committed_append)
  have "index_target ev dn dp p w =
        (Inl (RuntimeError (''rclone lsf failed for '' @ ?t @ '': '' @ py_strip (lsf_stderr (lsf_run ev ?t)))), w1)"
    using l assms(1) by (simp add: index_target_def Let_def)
  with st tr st0 tr0 show ?thesis by simp
qed

lemma full_batches_dvd: "batch_size dvd full_batches n"
  by (simp add: full_batches_def)

lemma index_target_any:
  assumes "index_target ev dn dp p w = (r, w')"
  shows "\<exists>n. n \<le> length (parsed_records dn (clean_dir_of dp) (lsf_lines (lsf_run ev (target_of dn (clean_dir_of dp)))))
     \<and> committed (trace w') = committed (trace w) @ take n (parsed_records dn (clean_dir_of dp) (lsf_lines (lsf_run ev (target_of dn (clean_dir_of dp)))))
     \<and> store_of w' = upsert_all (take n (parsed_records dn (clean_dir_of dp) (lsf_lines (lsf_run ev (target_of dn (clean_dir_of dp)))))) (store_of w)
     \<and> (isl r \<longrightarrow> batch_size dvd n)
     \<and> (lsf_returncode (lsf_run ev (target_of dn (clean_dir_of dp))) \<noteq> 0 \<longrightarrow> isl r)"
proof -
  let ?t = "target_of dn (clean_dir_of dp)"
  let ?recs = "parsed_records dn (clean_dir_of dp) (lsf_lines (lsf_run ev ?t))"
  let ?w0 = "log_event (ListRun ?t) w"
  have st0: "store_of ?w0 = store_of w" by (rule store_of_log_event)
  have tr0: "committed (trace ?w0) = committed (trace w)" by (simp add: log_event_def committed_append)
  have e: "length ([]::entry list) < batch_size" by (simp add: batch_size_def)
  show ?thesis
  proof (cases r)
    case (Inr p')
    from index_target_Inr [OF assms [unfolded Inr]]
    have "length ?recs \<le> length ?recs
     \<and> committed (trace w') = committed (trace w) @ take (length ?recs) ?recs
     \<and> store_of w' = upsert_all (take (length ?recs) ?recs) (store_of w)
     \<and> (isl r \<longrightarrow> batch_size dvd length ?recs)
     \<and> (lsf_returncode (lsf_run ev ?t) \<noteq> 0 \<longrightarrow> isl r)"
      using Inr by simp
    then show ?thesis by blast
  next
    case (Inl err)
    obtain r1 w1 where l: "index_loop (emitter ev) dn (clean_dir_of dp) (lsf_lines (lsf_run ev ?t)) [] p ?w0 = (r1, w1)"
      by (cases "index_loop (emitter ev) dn (clean_dir_of dp) (lsf_lines (lsf_run ev ?t)) [] p ?w0") auto
    have w': "w' = w1"
      using assms l Inl
      by (auto simp: index_target_def Let_def split: sum.splits if_splits prod.splits dest: flush_batch_Inl)
    from index_loop_any [OF l e] obtain k where
      k: "k * batch_size \<le> length ?recs"
         "committed (trace w1) = committed (trace ?w0) @ take (k * batch_size) ?recs"
         "store_of w1 = upsert_all (take (k * batch_size) ?recs) (store_of ?w0)"
      by auto
    have "k * batch_size \<le> length ?recs
     \<and> committed (trace w') = committed (trace w) @ take (k * batch_size) ?recs
     \<and> store_of w' = upsert_all (take (k * batch_size) ?recs) (store_of w)
     \<and> (isl r \<longrightarrow> batch_size dvd k * batch_size)
     \<and> (lsf_returncode (lsf_run ev ?t) \<noteq> 0 \<longrightarrow> isl r)"
      using k w' st0 tr0 Inl by simp
    then show ?thesis by blast
  qed
qed

lemma index_loop_append:
  "index_loop em dn cd (xs @ ys) batch p w =
     (case index_loop em dn cd xs batch p w of
        (Inl err, w1) \<Rightarrow> (Inl err, w1)
      | (Inr (b, p1), w1) \<Rightarrow> index_loop em dn cd ys b p1 w1)"
  by (induction xs arbitrary: batch p w)
     (auto simp: Let_def split: sum.splits option.splits prod.splits)

lemma flush_batch_overflow:
  assumes "\<not> list_all storable b"
  shows "flush_batch b w = (Inl (OverflowError ''Python int too large to convert to SQLite INTEGER''), w)"
proof (cases "executemany b w")
  case (Inl err)
  with executemany_Inl [OF Inl] show ?thesis by (simp add: flush_batch_def)
next
  case (Inr w1)
  with executemany_Inr [OF Inr] assms show ?thesis by simp
qed

section \<open>Batch boundaries and the failing listing\<close>

lemma upsert_fresh:
  assumes "e_full_path e \<notin> set (map (e_full_path \<circ> snd) (fst s))"
  shows "map snd (fst (upsert e s)) = map snd (fst s) @ [e]"
proof -
  have "filter (\<lambda>r. e_full_path (snd r) \<noteq> e_full_path e) (fst s) = fst s"
    using assms by (force simp: filter_id_conv)
  then show ?thesis by (simp add: upsert_def)
qed

lemma upsert_all_fresh:
  assumes "distinct (map e_full_path es)"
    "set (map e_full_path es) \<inter> set (map (e_full_path \<circ> snd) (fst s)) = {}"
  shows "map snd (fst (upsert_all es s)) = map snd (fst s) @ es"
  using assms
proof (induction es arbitrary: s)
  case Nil
  then show ?case by (simp add: upsert_all_Nil)
next
  case (Cons e es)
  from Cons.prems(2) have fresh: "e_full_path e \<notin> set (map (e_full_path \<circ> snd) (fst s))" by auto
  note u = upsert_fresh [OF fresh]
  have paths: "map (e_full_path \<circ> snd) (fst (upsert e s)) = map (e_full_path \<circ> snd) (fst s) @ [e_full_path e]"
    using u by (metis (no_types, lifting) list.simps(8,9) map_append map_map)
  from Cons.prems have d: "distinct (map e_full_path es)"
    and dj: "set (map e_full_path es) \<inter> set (map (e_full_path \<circ> snd) (fst (upsert e s))) = {}"
    unfolding paths by auto
  from Cons.IH [OF d dj] u show ?case
    by (simp add: upsert_all_Cons)
qed

lemma index_target_total:
  assumes "lsf_returncode (lsf_run ev (target_of dn (clean_dir_of dp))) = 0" "emit_safe (emitter ev)"
    "no_line_raises dn (clean_dir_of dp) (lsf_lines (lsf_run ev (target_of dn (clean_dir_of dp))))"
    "list_all storable (parsed_records dn (clean_dir_of dp) (lsf_lines (lsf_run ev (target_of dn (clean_dir_of dp)))))"
  shows "\<exists>p' w'. index_target ev dn dp p w = (Inr p', w')"
proof -
  let ?t = "target_of dn (clean_dir_of dp)"
  let ?recs = "parsed_records dn (clean_dir_of dp) (lsf_lines (lsf_run ev ?t))"
  let ?w0 = "log_event (ListRun ?t) w"
  have e: "length ([]::entry list) < batch_size" by (simp add: batch_size_def)
  from assms(4) have "list_all storable (take (full_batches (length ([] @ ?recs))) ([] @ ?recs))"
    by (simp add: list_all_take)
  from index_loop_total [OF assms(2) assms(3) e this]
  obtain b p1 w1 where l: "index_loop (emitter ev) dn (clean_dir_of dp) (lsf_lines (lsf_run ev ?t)) [] p ?w0 = (Inr (b, p1), w1)"
    by blast
  from index_loop_Inr [OF l e] have "b = drop (full_batches (length ?recs)) ?recs" by simp
  with assms(4) have "list_all storable b"
    by (metis append_take_drop_id list_all_append)
  from flush_batch_storable [OF this, of w1] obtain w2 where "flush_batch b w1 = (Inr (), w2)" by blast
  with l assms(1) show ?thesis by (simp add: index_target_def Let_def)
qed

text \<open>
  Claim C1, as amended. A run of the ingestor on one target that returns has seen exit
  status zero, has read every line without \<^verbatim>\<open>int\<close> raising, has advanced the counter
  by the number \<open>N\<close> of records the lines yield, and has committed exactly these
  \<open>N\<close> records, all of them storable, in order, whatever \<open>N\<close> is against the batch
  size: the store is the store before with all of them upserted. When their full paths are
  pairwise distinct and new to the table, the table grows by exactly \<open>N\<close> rows. The run
  does return when the exit status is zero, the records are well-formed (no size field
  makes \<^verbatim>\<open>int\<close> raise, every size is a 64-bit integer) and the emitter stays inside
  \<^verbatim>\<open>Exception\<close>; and \<^verbatim>\<open>int\<close> raises on no line whose size field, when
  \<^verbatim>\<open>isdigit\<close> accepts it, is decimal and of at most 4300 digits.
\<close>

theorem batch_boundary:
  assumes "recs = parsed_records dn (clean_dir_of dp) (lsf_lines (lsf_run ev (target_of dn (clean_dir_of dp))))"
  shows "(index_target ev dn dp p w = (Inr p', w') \<longrightarrow>
           lsf_returncode (lsf_run ev (target_of dn (clean_dir_of dp))) = 0
         \<and> no_line_raises dn (clean_dir_of dp) (lsf_lines (lsf_run ev (target_of dn (clean_dir_of dp))))
         \<and> list_all storable recs
         \<and> p' = p + int (length recs)
         \<and> committed (trace w') = committed (trace w) @ recs
         \<and> store_of w' = upsert_all recs (store_of w)
         \<and> (distinct (map e_full_path recs)
              \<and> set (map e_full_path recs) \<inter> set (map (e_full_path \<circ> snd) (db_rows w)) = {}
            \<longrightarrow> map snd (db_rows w') = map snd (db_rows w) @ recs
              \<and> length (db_rows w') = length (db_rows w) + length recs))
     \<and> (lsf_returncode (lsf_run ev (target_of dn (clean_dir_of dp))) = 0 \<and> emit_safe (emitter ev)
        \<and> no_line_raises dn (clean_dir_of dp) (lsf_lines (lsf_run ev (target_of dn (clean_dir_of dp))))
        \<and> list_all storable recs
          \<longrightarrow> (\<exists>w1. index_target ev dn dp p w = (Inr (p + int (length recs)), w1)))
     \<and> (list_all size_field_ok (lsf_lines (lsf_run ev (target_of dn (clean_dir_of dp))))
          \<longrightarrow> no_line_raises dn (clean_dir_of dp) (lsf_lines (lsf_run ev (target_of dn (clean_dir_of dp)))))"
proof (intro conjI impI)
  assume run: "index_target ev dn dp p w = (Inr p', w')"
  note r = index_target_Inr [OF run, folded assms]
  from r show "lsf_returncode (lsf_run ev (target_of dn (clean_dir_of dp))) = 0" by blast
  from r show "no_line_raises dn (clean_dir_of dp) (lsf_lines (lsf_run ev (target_of dn (clean_dir_of dp))))" by blast
  from r show "list_all storable recs" by blast
  from r show "p' = p + int (length recs)" by blast
  from r show "committed (trace w') = committed (trace w) @ recs" by blast
  from r show st: "store_of w' = upsert_all recs (store_of w)" by blast
  assume fresh: "distinct (map e_full_path recs)
              \<and> set (map e_full_path recs) \<inter> set (map (e_full_path \<circ> snd) (db_rows w)) = {}"
  then have "map snd (fst (upsert_all recs (store_of w))) = map snd (fst (store_of w)) @ recs"
    using upsert_all_fresh [of recs "store_of w"] by (simp add: store_of_def)
  moreover from st have "db_rows w' = fst (upsert_all recs (store_of w))"
    by (metis fst_conv store_of_def)
  ultimately show m: "map snd (db_rows w') = map snd (db_rows w) @ recs"
    by (simp add: store_of_def)
  from m have "length (map snd (db_rows w')) = length (map snd (db_rows w) @ recs)" by simp
  then show "length (db_rows w') = length (db_rows w) + length recs" by simp
next
  assume h: "lsf_returncode (lsf_run ev (target_of dn (clean_dir_of dp))) = 0 \<and> emit_safe (emitter ev)
        \<and> no_line_raises dn (clean_dir_of dp) (lsf_lines (lsf_run ev (target_of dn (clean_dir_of dp))))
        \<and> list_all storable recs"
  then obtain p1 w1 where run: "index_target ev dn dp p w = (Inr p1, w1)"
    using index_target_total [of ev dn dp p w] assms by blast
  from index_target_Inr [OF run, folded assms] have "p1 = p + int (length recs)" by blast
  with run show "\<exists>w1. index_target ev dn dp p w = (Inr (p + int (length recs)), w1)" by blast
next
  assume "list_all size_field_ok (lsf_lines (lsf_run ev (target_of dn (clean_dir_of dp))))"
  then show "no_line_raises dn (clean_dir_of dp) (lsf_lines (lsf_run ev (target_of dn (clean_dir_of dp))))"
    by (rule lines_ok_no_raise)
qed


lemma parsed_records_replicate:
  "parse_line dn cd l = Inr (Some e) \<Longrightarrow> parsed_records dn cd (replicate n l) = replicate n e"
  by (induction n) (simp_all add: parsed_records_Nil parsed_records_Some)

lemma no_line_raises_replicate:
  "parse_line dn cd l = Inr r \<Longrightarrow> no_line_raises dn cd (replicate n l)"
  by (induction n) (simp_all add: no_line_raises_def)

lemma list_all_replicate: "P x \<Longrightarrow> list_all P (replicate n x)"
  by (induction n) simp_all

lemma parse_line_a1: "parse_line ''r'' [] line_a1 = Inr (Some entry_a1)"
  by code_simp

lemma parse_line_big: "parse_line ''r'' [] line_big = Inr (Some entry_big)"
  by code_simp

lemma size_field_ok_a1: "size_field_ok line_a1"
  by code_simp

lemma storable_a1: "storable entry_a1"
  by (simp add: storable_def sqlite_int_ok_def entry_a1_def)

lemma not_storable_big: "\<not> storable entry_big"
  by (simp add: storable_def sqlite_int_ok_def entry_big_def)

lemma env_lines_sel:
  "lsf_lines (lsf_run (env_lines ls rc) t) = ls"
  "lsf_returncode (lsf_run (env_lines ls rc) t) = rc"
  "lsf_stderr (lsf_run (env_lines ls rc) t) = ''boom''"
  "emitter (env_lines ls rc) = (\<lambda>n. EmitReturns)"
  by (simp_all add: env_lines_def)

lemma emit_safe_returns: "emit_safe (\<lambda>n. EmitReturns)"
  by (simp add: emit_safe_def)

lemma full_batches_501: "full_batches 501 = 500"
  by (simp add: full_batches_def batch_size_def)

text \<open>
  C1 on three lines, one of them blank, and on 501 lines, one more than a batch.
\<close>

theorem batch_boundary_witness:
  "index_target (env_lines [line_a1, [CHR 0x0A], line_b] 0) ''r'' [] 0 w_empty
     = (Inr 2, snd (index_target (env_lines [line_a1, [CHR 0x0A], line_b] 0) ''r'' [] 0 w_empty))
   \<and> map snd (db_rows (snd (index_target (env_lines [line_a1, [CHR 0x0A], line_b] 0) ''r'' [] 0 w_empty)))
       = [entry_a1, entry_b]
   \<and> fst (index_target (env_lines (replicate 501 line_a1) 0) ''r'' [] 0 w_empty) = Inr 501
   \<and> committed (trace (snd (index_target (env_lines (replicate 501 line_a1) 0) ''r'' [] 0 w_empty)))
       = replicate 501 entry_a1"
proof -
  let ?E = "env_lines [line_a1, [CHR 0x0A], line_b] 0"
  let ?W = "snd (index_target ?E ''r'' [] 0 w_empty)"
  have recs: "[entry_a1, entry_b] = parsed_records ''r'' (clean_dir_of [])
      (lsf_lines (lsf_run ?E (target_of ''r'' (clean_dir_of []))))"
    by code_simp
  have run: "index_target ?E ''r'' [] 0 w_empty = (Inr 2, ?W)"
    by code_simp
  have fresh: "distinct (map e_full_path [entry_a1, entry_b])
     \<and> set (map e_full_path [entry_a1, entry_b]) \<inter> set (map (e_full_path \<circ> snd) (db_rows w_empty)) = {}"
    by (simp add: entry_a1_def entry_b_def w_empty_def)
  from batch_boundary [OF recs, of 0 w_empty 2 ?W] run fresh
  have small: "map snd (db_rows ?W) = [entry_a1, entry_b]"
    by (simp add: w_empty_def)
  let ?F = "env_lines (replicate 501 line_a1) 0"
  have recs2: "replicate 501 entry_a1 = parsed_records ''r'' (clean_dir_of [])
      (lsf_lines (lsf_run ?F (target_of ''r'' (clean_dir_of []))))"
    by (simp add: env_lines_sel clean_dir_of_def parsed_records_replicate [OF parse_line_a1])
  have sz: "list_all size_field_ok (lsf_lines (lsf_run ?F (target_of ''r'' (clean_dir_of []))))"
    by (simp add: env_lines_sel list_all_replicate [of size_field_ok line_a1, OF size_field_ok_a1])
  from batch_boundary [OF recs2, of 0 w_empty] sz
  have nr: "no_line_raises ''r'' (clean_dir_of []) (lsf_lines (lsf_run ?F (target_of ''r'' (clean_dir_of []))))"
    by blast
  have ok: "lsf_returncode (lsf_run ?F (target_of ''r'' (clean_dir_of []))) = 0 \<and> emit_safe (emitter ?F)
      \<and> no_line_raises ''r'' (clean_dir_of []) (lsf_lines (lsf_run ?F (target_of ''r'' (clean_dir_of []))))
      \<and> list_all storable (replicate 501 entry_a1)"
    using nr
    by (simp add: env_lines_sel emit_safe_returns list_all_replicate [of storable entry_a1, OF storable_a1])
  from batch_boundary [OF recs2, of 0 w_empty] ok
  obtain w1 where run2: "index_target ?F ''r'' [] 0 w_empty = (Inr (0 + int (length (replicate 501 entry_a1))), w1)"
    by blast
  from batch_boundary [OF recs2, of 0 w_empty "0 + int (length (replicate 501 entry_a1))" w1] run2
  have "committed (trace w1) = committed (trace w_empty) @ replicate 501 entry_a1"
    by blast
  with run2 have big: "fst (index_target ?F ''r'' [] 0 w_empty) = Inr 501
     \<and> committed (trace (snd (index_target ?F ''r'' [] 0 w_empty))) = replicate 501 entry_a1"
    by (simp add: w_empty_def)
  from run small big show ?thesis by blast
qed

text \<open>
  C1 as stated fails on two well-formed records with the same relative path: both are
  counted and written, and one row is in the table.
\<close>

theorem batch_boundary_counterexample:
  "length (parsed_records ''r'' [] [line_a1, line_a2]) = 2
   \<and> fst (index_target (env_lines [line_a1, line_a2] 0) ''r'' [] 0 w_empty) = Inr 2
   \<and> db_rows (snd (index_target (env_lines [line_a1, line_a2] 0) ''r'' [] 0 w_empty)) = [(2, entry_a2)]"
  by code_simp

lemma full_batches_minus_mod: "full_batches n = n - n mod batch_size"
  by (simp add: full_batches_def minus_mod_eq_div_mult)

text \<open>
  Claim C10, as amended. When the listing exits with a non-zero status the run on that
  target ends in an error, and what it has written and committed is a number of whole
  batches from the front of the records, never a partial batch: of \<open>N\<close> records at least
  the last \<open>N mod 500\<close> are never passed to the store. When the loop reaches the end of
  the listing (the emitter stays inside \<^verbatim>\<open>Exception\<close>, no size field makes
  \<^verbatim>\<open>int\<close> raise and the records of the whole batches are storable) the error is the
  listing error and exactly the \<open>N - N mod 500\<close> records of the whole batches are
  written.
\<close>

theorem listing_failure_discards_partial_batch:
  assumes "recs = parsed_records dn (clean_dir_of dp) (lsf_lines (lsf_run ev (target_of dn (clean_dir_of dp))))"
    and "lsf_returncode (lsf_run ev (target_of dn (clean_dir_of dp))) \<noteq> 0"
  shows "(\<exists>err w' n. index_target ev dn dp p w = (Inl err, w')
          \<and> batch_size dvd n \<and> n \<le> length recs - length recs mod batch_size
          \<and> store_of w' = upsert_all (take n recs) (store_of w)
          \<and> committed (trace w') = committed (trace w) @ take n recs)
     \<and> (emit_safe (emitter ev)
        \<and> no_line_raises dn (clean_dir_of dp) (lsf_lines (lsf_run ev (target_of dn (clean_dir_of dp))))
        \<and> list_all storable (take (length recs - length recs mod batch_size) recs)
        \<longrightarrow> (\<exists>w'. index_target ev dn dp p w =
                (Inl (RuntimeError (''rclone lsf failed for '' @ target_of dn (clean_dir_of dp) @ '': ''
                      @ py_strip (lsf_stderr (lsf_run ev (target_of dn (clean_dir_of dp)))))), w')
              \<and> store_of w' = upsert_all (take (length recs - length recs mod batch_size) recs) (store_of w)
              \<and> committed (trace w') = committed (trace w) @ take (length recs - length recs mod batch_size) recs))
     \<and> length (take (length recs - length recs mod batch_size) recs) = length recs - length recs mod batch_size
     \<and> length (drop (length recs - length recs mod batch_size) recs) = length recs mod batch_size"
proof (intro conjI impI)
  obtain r w' where run: "index_target ev dn dp p w = (r, w')"
    by (cases "index_target ev dn dp p w") auto
  from index_target_any [OF run, folded assms(1)] assms(2) obtain n where
    n: "n \<le> length recs" "committed (trace w') = committed (trace w) @ take n recs"
       "store_of w' = upsert_all (take n recs) (store_of w)" "batch_size dvd n" "isl r"
    by blast
  from n(5) obtain err where r: "r = Inl err" by (cases r) auto
  from n(4) obtain k where k: "n = batch_size * k" by (auto simp: dvd_def)
  with n(1) have "k \<le> length recs div batch_size"
    by (simp add: batch_size_def less_eq_div_iff_mult_less_eq mult.commute)
  then have "k * batch_size \<le> length recs div batch_size * batch_size" by simp
  with k have "n \<le> length recs - length recs mod batch_size"
    by (simp add: minus_mod_eq_div_mult mult.commute)
  with run r n show "\<exists>err w' n. index_target ev dn dp p w = (Inl err, w')
          \<and> batch_size dvd n \<and> n \<le> length recs - length recs mod batch_size
          \<and> store_of w' = upsert_all (take n recs) (store_of w)
          \<and> committed (trace w') = committed (trace w) @ take n recs"
    by blast
next
  assume h: "emit_safe (emitter ev)
        \<and> no_line_raises dn (clean_dir_of dp) (lsf_lines (lsf_run ev (target_of dn (clean_dir_of dp))))
        \<and> list_all storable (take (length recs - length recs mod batch_size) recs)"
  then have s: "list_all storable (take (full_batches (length recs)) recs)"
    by (simp only: full_batches_minus_mod)
  from h have e: "emit_safe (emitter ev)"
    and nr: "no_line_raises dn (clean_dir_of dp) (lsf_lines (lsf_run ev (target_of dn (clean_dir_of dp))))"
    by simp_all
  from index_target_listing_failed [OF assms(2) e nr s [unfolded assms(1)], of p w, folded assms(1)]
  show "\<exists>w'. index_target ev dn dp p w =
                (Inl (RuntimeError (''rclone lsf failed for '' @ target_of dn (clean_dir_of dp) @ '': ''
                      @ py_strip (lsf_stderr (lsf_run ev (target_of dn (clean_dir_of dp)))))), w')
              \<and> store_of w' = upsert_all (take (length recs - length recs mod batch_size) recs) (store_of w)
              \<and> committed (trace w') = committed (trace w) @ take (length recs - length recs mod batch_size) recs"
    by (simp only: full_batches_minus_mod)
next
  show "length (take (length recs - length recs mod batch_size) recs) = length recs - length recs mod batch_size"
    by simp
  show "length (drop (length recs - length recs mod batch_size) recs) = length recs mod batch_size"
    by simp
qed

text \<open>C10 on 501 lines: 500 records are committed and the last one is dropped.\<close>

theorem listing_failure_discards_partial_batch_witness:
  "fst (index_target (env_lines (replicate 501 line_a1) 1) ''r'' [] 0 w_empty)
     = Inl (RuntimeError ''rclone lsf failed for r:: boom'')
   \<and> committed (trace (snd (index_target (env_lines (replicate 501 line_a1) 1) ''r'' [] 0 w_empty)))
       = replicate 500 entry_a1"
proof -
  let ?F = "env_lines (replicate 501 line_a1) 1"
  have recs: "replicate 501 entry_a1 = parsed_records ''r'' (clean_dir_of [])
      (lsf_lines (lsf_run ?F (target_of ''r'' (clean_dir_of []))))"
    by (simp add: env_lines_sel clean_dir_of_def parsed_records_replicate [OF parse_line_a1])
  have rc: "lsf_returncode (lsf_run ?F (target_of ''r'' (clean_dir_of []))) \<noteq> 0"
    by (simp add: env_lines_sel)
  have n: "length (replicate 501 entry_a1) - length (replicate 501 entry_a1) mod batch_size = 500"
    by (simp add: batch_size_def)
  have h: "emit_safe (emitter ?F)
      \<and> no_line_raises ''r'' (clean_dir_of []) (lsf_lines (lsf_run ?F (target_of ''r'' (clean_dir_of []))))
      \<and> list_all storable (take (length (replicate 501 entry_a1) - length (replicate 501 entry_a1) mod batch_size)
            (replicate 501 entry_a1))"
    unfolding n
    by (simp add: env_lines_sel emit_safe_returns clean_dir_of_def
        no_line_raises_replicate [OF parse_line_a1] list_all_replicate [of storable entry_a1, OF storable_a1])
  have msg: "''rclone lsf failed for '' @ target_of ''r'' (clean_dir_of []) @ '': ''
              @ py_strip (lsf_stderr (lsf_run ?F (target_of ''r'' (clean_dir_of [])))) = ''rclone lsf failed for r:: boom''"
    by code_simp
  from listing_failure_discards_partial_batch [OF recs rc, of 0 w_empty] h
  obtain w' where "index_target ?F ''r'' [] 0 w_empty = (Inl (RuntimeError ''rclone lsf failed for r:: boom''), w')"
    and "committed (trace w') = committed (trace w_empty) @ take 500 (replicate 501 entry_a1)"
    unfolding msg n by blast
  then show ?thesis by (simp add: w_empty_def)
qed

text \<open>
  The ways a line ends the run of a target with an exception of its own: a size field
  that \<^verbatim>\<open>isdigit\<close> accepts and \<^verbatim>\<open>int\<close> refuses, a size of more than 4300 digits, and
  a size that SQLite cannot hold, which raises when its batch is flushed.
\<close>

lemma index_target_superscript:
  "index_target (env_lines [line_sup] rc) ''r'' [] 0 w_empty
     = (Inl (ValueError ''invalid literal for int() with base 10''), log_event (ListRun ''r:'') w_empty)"
  by code_simp

lemma py_int_limit:
  assumes "list_all is_decimal s" "length s > int_max_str_digits"
  shows "py_int s = Inl (ValueError ''Exceeds the limit (4300 digits) for integer string conversion'')"
proof -
  from assms(1) have "takeWhile is_decimal s = s"
    by (simp add: takeWhile_eq_all_conv list_all_iff)
  then have "length (takeWhile is_decimal s) = length s" by (rule arg_cong)
  with assms(2) have "length (takeWhile is_decimal s) > int_max_str_digits" by linarith
  then show ?thesis by (simp only: py_int_def if_True)
qed

lemma index_target_overflow:
  "\<exists>w'. index_target (env_lines (replicate 499 line_a1 @ [line_big]) rc) ''r'' [] 0 w
      = (Inl (OverflowError ''Python int too large to convert to SQLite INTEGER''), w')
     \<and> store_of w' = store_of w \<and> committed (trace w') = committed (trace w)"
proof -
  let ?E = "env_lines (replicate 499 line_a1 @ [line_big]) rc"
  let ?w0 = "log_event (ListRun ''r:'') w"
  have e: "length ([]::entry list) < batch_size" by (simp add: batch_size_def)
  have recs: "parsed_records ''r'' [] (replicate 499 line_a1) = replicate 499 entry_a1"
    by (rule parsed_records_replicate [OF parse_line_a1])
  have fb: "full_batches 499 = 0" by (simp add: full_batches_def batch_size_def)
  have nr: "no_line_raises ''r'' [] (replicate 499 line_a1)"
    by (rule no_line_raises_replicate [OF parse_line_a1])
  have "list_all storable (take (full_batches (length ([] @ parsed_records ''r'' [] (replicate 499 line_a1))))
      ([] @ parsed_records ''r'' [] (replicate 499 line_a1)))"
    by (simp add: recs fb)
  from index_loop_total [OF emit_safe_returns nr e this]
  obtain b p1 w1 where l: "index_loop (\<lambda>n. EmitReturns) ''r'' [] (replicate 499 line_a1) [] 0 ?w0 = (Inr (b, p1), w1)"
    by blast
  from index_loop_Inr [OF l e]
  have b: "b = replicate 499 entry_a1" and st: "store_of w1 = store_of ?w0"
    and cm: "committed (trace w1) = committed (trace ?w0)"
    by (simp_all add: recs fb upsert_all_Nil)
  have "\<not> list_all storable (b @ [entry_big])" by (simp add: not_storable_big)
  from flush_batch_overflow [OF this, of w1]
  have "index_loop (\<lambda>n. EmitReturns) ''r'' [] [line_big] b p1 w1
      = (Inl (OverflowError ''Python int too large to convert to SQLite INTEGER''), w1)"
    by (simp add: parse_line_big b batch_size_def)
  with l have "index_loop (\<lambda>n. EmitReturns) ''r'' [] (replicate 499 line_a1 @ [line_big]) [] 0 ?w0
      = (Inl (OverflowError ''Python int too large to convert to SQLite INTEGER''), w1)"
    by (simp add: index_loop_append del: index_loop.simps)
  then have "index_target ?E ''r'' [] 0 w
      = (Inl (OverflowError ''Python int too large to convert to SQLite INTEGER''), w1)"
    by (simp add: index_target_def Let_def env_lines_sel clean_dir_of_def target_of_def del: index_loop.simps)
  moreover from st have "store_of w1 = store_of w" by (simp only: store_of_log_event)
  moreover from cm have "committed (trace w1) = committed (trace w)"
    by (simp add: log_event_def committed_append)
  ultimately show ?thesis by blast
qed

text \<open>
  C10 as stated fails on a listing of 500 lines, the last with a size of \<open>2 ^ 63\<close>, that
  exits with status 1: the flush of the first whole batch raises \<^verbatim>\<open>OverflowError\<close>, so
  the run ends with it and not with the listing error, and nothing is written.
\<close>

theorem listing_failure_discards_partial_batch_counterexample:
  "lsf_returncode (lsf_run (env_lines (replicate 499 line_a1 @ [line_big]) 1) ''r:'') \<noteq> 0
   \<and> fst (index_target (env_lines (replicate 499 line_a1 @ [line_big]) 1) ''r'' [] 0 w_empty)
       = Inl (OverflowError ''Python int too large to convert to SQLite INTEGER'')
   \<and> fst (index_target (env_lines (replicate 499 line_a1 @ [line_big]) 1) ''r'' [] 0 w_empty)
       \<noteq> Inl (RuntimeError ''rclone lsf failed for r:: boom'')
   \<and> db_rows (snd (index_target (env_lines (replicate 499 line_a1 @ [line_big]) 1) ''r'' [] 0 w_empty)) = []"
proof -
  from index_target_overflow [of 1 w_empty] obtain w' where
    "index_target (env_lines (replicate 499 line_a1 @ [line_big]) 1) ''r'' [] 0 w_empty
      = (Inl (OverflowError ''Python int too large to convert to SQLite INTEGER''), w')"
    and "store_of w' = store_of w_empty"
    by blast
  then show ?thesis by (simp add: env_lines_sel store_of_def w_empty_def)
qed

section \<open>Malformed lines\<close>

lemma parse_line_blank:
  assumes "rstrip_chars is_newline l = []"
  shows "parse_line dn cd l = Inr None"
  using assms by (simp add: parse_line_def)

lemma parse_line_empty_first: "parse_line dn cd (CHR 0x09 # rest) = Inr None"
proof -
  have "rstrip_chars is_newline (CHR 0x09 # rest) = CHR 0x09 # rstrip_chars is_newline rest"
    by (rule rstrip_chars_Cons_keep) (simp add: is_newline_def)
  then show ?thesis by (simp add: parse_line_def)
qed

lemma rstrip_chars_all: "\<forall>c \<in> set s. \<not> P c \<Longrightarrow> rstrip_chars P (s @ [x]) = (if P x then rstrip_chars P s else s @ [x])"
  by (simp add: rstrip_chars_def)

lemma rstrip_chars_none: "s \<noteq> [] \<Longrightarrow> \<not> P (last s) \<Longrightarrow> rstrip_chars P s = s"
  by (cases s rule: rev_cases) (simp_all add: rstrip_chars_def)

lemma parse_line_first_only:
  assumes "p \<noteq> [] \<and> CHR 0x09 \<notin> set p \<and> CHR 0x0A \<notin> set p"
  shows "parse_line dn cd (p @ [CHR 0x0A])
           = Inr (Some (Entry (dn @ '':'' @ (if cd \<noteq> [] then rstrip_chars is_slash cd @ ''/'' else []) @ p) dn 0 [] None))"
proof -
  from assms have "last p \<noteq> CHR 0x0A" by (metis last_in_set)
  with assms have "rstrip_chars is_newline p = p"
    by (simp add: rstrip_chars_none is_newline_def)
  moreover have "rstrip_chars is_newline (p @ [CHR 0x0A]) = rstrip_chars is_newline p"
    by (simp add: rstrip_chars_def is_newline_def)
  ultimately have "split_on (CHR 0x09) (rstrip_chars is_newline (p @ [CHR 0x0A])) = [p]"
    using assms by (simp add: split_on_single)
  then show ?thesis using assms by (simp add: parse_line_def parse_size_def Let_def)
qed

lemma index_loop_skip:
  assumes "parse_line dn cd bad = Inr None"
  shows "index_loop em dn cd (pre @ bad # post) batch p w = index_loop em dn cd (pre @ post) batch p w"
  by (simp add: index_loop_append [of em dn cd pre] index_loop_None [OF assms] del: index_loop.simps
      split: prod.splits sum.splits)

lemma parsed_records_middle:
  "parsed_records dn cd (pre @ l # post)
     = parsed_records dn cd pre @ (case record_of_line dn cd l of None \<Rightarrow> [] | Some e \<Rightarrow> [e]) @ parsed_records dn cd post"
  by (cases "record_of_line dn cd l")
     (simp_all add: parsed_records_def map_filter_def)

text \<open>
  Claim C2, as amended. A blank line and a line whose first field is empty yield no
  record; a line that has its first field only yields one record, with size 0, an empty
  file type and no modification time. The loop over a stream with a skipped line is the
  loop over the stream without it, in its result and in everything it does, and the
  skipped line changes neither the records of the stream nor whether \<^verbatim>\<open>int\<close> raises
  on it. The loop ends normally, with every record counted, when the emitter stays inside
  \<^verbatim>\<open>Exception\<close> and the lines are well-formed (no size field makes \<^verbatim>\<open>int\<close>
  raise, which holds when every size field that \<^verbatim>\<open>isdigit\<close> accepts is decimal and of
  at most 4300 digits, and every size is a 64-bit integer), and a run that returns has
  committed the records of the lines before and after any line, with what that line itself
  yields in between.
\<close>

theorem malformed_line_tolerance:
  "(rstrip_chars is_newline blank = [] \<longrightarrow> parse_line dn cd blank = Inr None)
   \<and> parse_line dn cd (CHR 0x09 # rest) = Inr None
   \<and> (f \<noteq> [] \<and> CHR 0x09 \<notin> set f \<and> CHR 0x0A \<notin> set f \<longrightarrow>
        parse_line dn cd (f @ [CHR 0x0A])
          = Inr (Some (Entry (dn @ '':'' @ (if cd \<noteq> [] then rstrip_chars is_slash cd @ ''/'' else []) @ f) dn 0 [] None)))
   \<and> (parse_line dn cd l = Inr None \<longrightarrow>
        index_loop em dn cd (pre @ l # post) batch p w = index_loop em dn cd (pre @ post) batch p w
        \<and> parsed_records dn cd (pre @ l # post) = parsed_records dn cd (pre @ post)
        \<and> no_line_raises dn cd (pre @ l # post) = no_line_raises dn cd (pre @ post))
   \<and> (emit_safe em \<and> no_line_raises dn cd ls \<and> list_all storable (batch @ parsed_records dn cd ls)
        \<and> length batch < batch_size \<longrightarrow>
        (\<exists>b1 w1. index_loop em dn cd ls batch p w = (Inr (b1, p + int (length (parsed_records dn cd ls))), w1)))
   \<and> (list_all size_field_ok ls \<longrightarrow> no_line_raises dn cd ls)
   \<and> (index_target ev dn dp p w = (Inr p', w')
        \<and> lsf_lines (lsf_run ev (target_of dn (clean_dir_of dp))) = pre @ l # post \<longrightarrow>
        committed (trace w') = committed (trace w) @ parsed_records dn (clean_dir_of dp) pre
           @ (case record_of_line dn (clean_dir_of dp) l of None \<Rightarrow> [] | Some e \<Rightarrow> [e])
           @ parsed_records dn (clean_dir_of dp) post)"
proof (intro conjI impI)
  assume "rstrip_chars is_newline blank = []"
  then show "parse_line dn cd blank = Inr None" by (rule parse_line_blank)
next
  show "parse_line dn cd (CHR 0x09 # rest) = Inr None" by (rule parse_line_empty_first)
next
  assume "f \<noteq> [] \<and> CHR 0x09 \<notin> set f \<and> CHR 0x0A \<notin> set f"
  then show "parse_line dn cd (f @ [CHR 0x0A])
          = Inr (Some (Entry (dn @ '':'' @ (if cd \<noteq> [] then rstrip_chars is_slash cd @ ''/'' else []) @ f) dn 0 [] None))"
    by (rule parse_line_first_only)
next
  assume n: "parse_line dn cd l = Inr None"
  then show "index_loop em dn cd (pre @ l # post) batch p w = index_loop em dn cd (pre @ post) batch p w"
    by (rule index_loop_skip)
  from n show "parsed_records dn cd (pre @ l # post) = parsed_records dn cd (pre @ post)"
    by (simp add: parsed_records_append parsed_records_None)
  from n show "no_line_raises dn cd (pre @ l # post) = no_line_raises dn cd (pre @ post)"
    by (simp add: no_line_raises_append no_line_raises_Cons)
next
  assume h: "emit_safe em \<and> no_line_raises dn cd ls \<and> list_all storable (batch @ parsed_records dn cd ls)
        \<and> length batch < batch_size"
  then have s: "list_all storable (take (full_batches (length (batch @ parsed_records dn cd ls))) (batch @ parsed_records dn cd ls))"
    by (simp only: list_all_take)
  from h have e: "emit_safe em" and nr: "no_line_raises dn cd ls" and b: "length batch < batch_size"
    by simp_all
  from index_loop_total [OF e nr b s, of p w]
  obtain b1 p1 w1 where l: "index_loop em dn cd ls batch p w = (Inr (b1, p1), w1)" by blast
  from index_loop_Inr [OF l b] have "p1 = p + int (length (parsed_records dn cd ls))" by blast
  with l show "\<exists>b1 w1. index_loop em dn cd ls batch p w = (Inr (b1, p + int (length (parsed_records dn cd ls))), w1)"
    by blast
next
  assume "list_all size_field_ok ls"
  then show "no_line_raises dn cd ls" by (rule lines_ok_no_raise)
next
  assume a: "index_target ev dn dp p w = (Inr p', w')
        \<and> lsf_lines (lsf_run ev (target_of dn (clean_dir_of dp))) = pre @ l # post"
  from index_target_Inr [of ev dn dp p w p' w'] a
  have "committed (trace w') = committed (trace w) @ parsed_records dn (clean_dir_of dp) (pre @ l # post)"
    by simp
  then show "committed (trace w') = committed (trace w) @ parsed_records dn (clean_dir_of dp) pre
           @ (case record_of_line dn (clean_dir_of dp) l of None \<Rightarrow> [] | Some e \<Rightarrow> [e])
           @ parsed_records dn (clean_dir_of dp) post"
    by (simp only: parsed_records_middle)
qed

text \<open>
  C2 as stated fails on the line \<^verbatim>\<open>foo.txt\<close>, which has no field after the first: it
  is not skipped, and its record is in the table.
\<close>

theorem malformed_line_tolerance_counterexample:
  "parse_line ''r'' [] (''foo.txt'' @ [CHR 0x0A]) = Inr (Some (Entry ''r:foo.txt'' ''r'' 0 [] None))
   \<and> index_target (env_lines [''foo.txt'' @ [CHR 0x0A]] 0) ''r'' [] 0 w_empty
      = (Inr 1, \<lparr>db_rows = [(1, Entry ''r:foo.txt'' ''r'' 0 [] None)], db_seq = 1,
           trace = [ListRun ''r:'', SetProcessedItems 1, SetProcessingTime, EmitProgress EmitReturns,
                    Commit [Entry ''r:foo.txt'' ''r'' 0 [] None]], emit_calls = 1\<rparr>)"
  by code_simp

text \<open>C2 on a stream with a blank line between two valid lines.\<close>

theorem malformed_line_tolerance_witness:
  "parse_line ''r'' [] [CHR 0x0A] = Inr None
   \<and> parse_line ''r'' [] (''foo.txt'' @ [CHR 0x0A]) = Inr (Some (Entry ''r:foo.txt'' ''r'' 0 [] None))
   \<and> index_loop (\<lambda>n. EmitReturns) ''r'' [] ([line_a1] @ [CHR 0x0A] # [line_b]) [] 0 w_empty
       = index_loop (\<lambda>n. EmitReturns) ''r'' [] ([line_a1] @ [line_b]) [] 0 w_empty
   \<and> (\<exists>b1 w1. index_loop (\<lambda>n. EmitReturns) ''r'' [] [line_a1, [CHR 0x0A], line_b] [] 0 w_empty = (Inr (b1, 2), w1))
   \<and> committed (trace (snd (index_target (env_lines [line_a1, [CHR 0x0A], line_b] 0) ''r'' [] 0 w_empty)))
       = [entry_a1, entry_b]"
proof -
  let ?E = "env_lines [line_a1, [CHR 0x0A], line_b] 0"
  let ?W = "snd (index_target ?E ''r'' [] 0 w_empty)"
  have h1: "rstrip_chars is_newline [CHR 0x0A] = []" by (simp add: rstrip_chars_def is_newline_def)
  have h2: "''foo.txt'' \<noteq> [] \<and> CHR 0x09 \<notin> set ''foo.txt'' \<and> CHR 0x0A \<notin> set ''foo.txt''" by simp
  have h3: "parse_line ''r'' [] [CHR 0x0A] = Inr None" by code_simp
  have recs: "parsed_records ''r'' [] [line_a1, [CHR 0x0A], line_b] = [entry_a1, entry_b]" by code_simp
  have sz: "list_all size_field_ok [line_a1, [CHR 0x0A], line_b]" by code_simp
  note t = malformed_line_tolerance [of "[CHR 0x0A]" "''r''" "[]" "[]" "''foo.txt''" "[CHR 0x0A]"
      "\<lambda>n. EmitReturns" "[line_a1]" "[line_b]" "[]" 0 w_empty "[line_a1, [CHR 0x0A], line_b]" ?E "[]" 2 ?W]
  from t sz have nr: "no_line_raises ''r'' [] [line_a1, [CHR 0x0A], line_b]" by blast
  have h4: "emit_safe (\<lambda>n. EmitReturns) \<and> no_line_raises ''r'' [] [line_a1, [CHR 0x0A], line_b]
      \<and> list_all storable ([] @ parsed_records ''r'' [] [line_a1, [CHR 0x0A], line_b])
      \<and> length ([]::entry list) < batch_size"
    using nr
    by (simp add: emit_safe_returns recs storable_def sqlite_int_ok_def entry_a1_def entry_b_def batch_size_def)
  have h5: "index_target ?E ''r'' [] 0 w_empty = (Inr 2, ?W)
        \<and> lsf_lines (lsf_run ?E (target_of ''r'' (clean_dir_of []))) = [line_a1] @ [CHR 0x0A] # [line_b]"
    by code_simp
  have c0: "committed (trace w_empty) = []" by (simp add: w_empty_def)
  have c1: "parsed_records ''r'' (clean_dir_of []) [line_a1] = [entry_a1]" by code_simp
  have c2: "parsed_records ''r'' (clean_dir_of []) [line_b] = [entry_b]" by code_simp
  have c3: "record_of_line ''r'' (clean_dir_of []) [CHR 0x0A] = None" by code_simp
  from t h1 have 1: "parse_line ''r'' [] [CHR 0x0A] = Inr None" by blast
  from t h2 have 2: "parse_line ''r'' [] (''foo.txt'' @ [CHR 0x0A]) = Inr (Some (Entry ''r:foo.txt'' ''r'' 0 [] None))"
    by simp
  from t h3 have 3: "index_loop (\<lambda>n. EmitReturns) ''r'' [] ([line_a1] @ [CHR 0x0A] # [line_b]) [] 0 w_empty
       = index_loop (\<lambda>n. EmitReturns) ''r'' [] ([line_a1] @ [line_b]) [] 0 w_empty"
    by blast
  from t h4 have 4: "\<exists>b1 w1. index_loop (\<lambda>n. EmitReturns) ''r'' [] [line_a1, [CHR 0x0A], line_b] [] 0 w_empty
       = (Inr (b1, 0 + int (length (parsed_records ''r'' [] [line_a1, [CHR 0x0A], line_b]))), w1)"
    by blast
  then have 4: "\<exists>b1 w1. index_loop (\<lambda>n. EmitReturns) ''r'' [] [line_a1, [CHR 0x0A], line_b] [] 0 w_empty = (Inr (b1, 2), w1)"
    by (simp only: recs) simp
  from t h5 have "committed (trace ?W) = committed (trace w_empty) @ parsed_records ''r'' (clean_dir_of []) [line_a1]
           @ (case record_of_line ''r'' (clean_dir_of []) [CHR 0x0A] of None \<Rightarrow> [] | Some e \<Rightarrow> [e])
           @ parsed_records ''r'' (clean_dir_of []) [line_b]"
    by blast
  then have 5: "committed (trace ?W) = [entry_a1, entry_b]" by (simp add: c0 c1 c2 c3)
  from 1 2 3 4 5 show ?thesis by blast
qed

section \<open>What a run logs\<close>

lemma upto_join: "p \<le> q \<Longrightarrow> q \<le> r \<Longrightarrow> [p + 1..q] @ [q + 1..r] = [p + 1..(r::int)]"
  by (cases "p = q") (simp_all add: upto_split2 [of "p + 1" q r])

lemma upto_snoc: "p \<le> q \<Longrightarrow> [p + 1..q] @ [q + 1] = [p + 1..q + (1::int)]"
  using upto_join [of p q "q + 1"] by simp

lemma index_loop_trace:
  assumes "index_loop em dn cd ls batch p w = (r, w')"
  shows "\<exists>new q. trace w' = trace w @ new \<and> list_runs new = [] \<and> total_values new = []
     \<and> p \<le> q \<and> processed_values new = [p + 1..q]
     \<and> (\<forall>b p'. r = Inr (b, p') \<longrightarrow> q = p')"
  using assms
proof (induction ls arbitrary: batch p w)
  case Nil
  then show ?case by auto
next
  case (Cons l ls)
  have zero: "\<exists>new q. trace w' = trace w @ new \<and> list_runs new = [] \<and> total_values new = []
     \<and> p \<le> q \<and> processed_values new = [p + 1..q]
     \<and> (\<forall>b p'. r = Inr (b, p') \<longrightarrow> q = p')" if "w' = w" "isl r"
  proof -
    from that have "trace w' = trace w @ [] \<and> list_runs [] = [] \<and> total_values [] = []
     \<and> p \<le> p \<and> processed_values [] = [p + 1..p]
     \<and> (\<forall>b p'. r = Inr (b, p') \<longrightarrow> p = p')"
      by auto
    then show ?thesis by blast
  qed
  show ?case
  proof (cases "parse_line dn cd l")
    case (Inl err)
    with Cons.prems have "w' = w" "isl r" by auto
    then show ?thesis by (rule zero)
  next
    case (Inr r0)
    show ?thesis
    proof (cases r0)
      case None
      with Inr have pl: "parse_line dn cd l = Inr None" by simp
      from Cons.prems have "index_loop em dn cd ls batch p w = (r, w')"
        by (simp only: index_loop_None [OF pl])
      from Cons.IH [OF this] show ?thesis .
    next
      case (Some e)
      with Inr have pl: "parse_line dn cd l = Inr (Some e)" by simp
      let ?b2 = "if length (batch @ [e]) \<ge> batch_size then [] else batch @ [e]"
      obtain rf w1 where f: "(if length (batch @ [e]) \<ge> batch_size then flush_batch (batch @ [e]) w else (Inr (), w)) = (rf, w1)"
        by (cases "if length (batch @ [e]) \<ge> batch_size then flush_batch (batch @ [e]) w else (Inr (), w)") auto
      show ?thesis
      proof (cases rf)
        case (Inl e1)
        with Cons.prems f have w': "w' = w1" and r: "r = Inl e1"
          by (simp_all add: index_loop_Some [OF pl] del: index_loop.simps)
        from f Inl have "flush_batch (batch @ [e]) w = (Inl e1, w1)" by (auto split: if_splits)
        from flush_batch_Inl [OF this] w' r have "w' = w" "isl r" by simp_all
        then show ?thesis by (rule zero)
      next
        case rf: (Inr u0)
        obtain r1 w2 where u: "update_progress em (p + 1) w1 = (r1, w2)"
          by (cases "update_progress em (p + 1) w1") auto
        from update_progress_cases [OF u]
        have tr2: "trace w2 = trace w1 @ [SetProcessedItems (p + 1), SetProcessingTime, EmitProgress (em (emit_calls w1))]"
          by blast
        obtain n1 where tr1: "trace w1 = trace w @ n1"
          and n1: "list_runs n1 = []" "total_values n1 = []" "processed_values n1 = []"
        proof (cases "length (batch @ [e]) \<ge> batch_size")
          case True
          with f rf have "flush_batch (batch @ [e]) w = (Inr (), w1)" by simp
          from flush_batch_Inr [OF this] have "trace w1 = trace w @ [Commit (batch @ [e])]" by blast
          then show ?thesis using that [of "[Commit (batch @ [e])]"] by simp
        next
          case False
          with f have "trace w1 = trace w @ []" by simp
          then show ?thesis using that [of "[]"] by simp
        qed
        let ?n2 = "n1 @ [SetProcessedItems (p + 1), SetProcessingTime, EmitProgress (em (emit_calls w1))]"
        have t2: "trace w2 = trace w @ ?n2" using tr1 tr2 by simp
        have n2: "list_runs ?n2 = []" "total_values ?n2 = []" "processed_values ?n2 = [p + 1]"
          using n1 by (simp_all add: list_runs_append total_values_append processed_values_append)
        show ?thesis
        proof (cases r1)
          case (Inl err)
          with Cons.prems f rf u have "r = Inl err" "w' = w2"
            by (simp_all add: index_loop_Some [OF pl] del: index_loop.simps)
          with t2 n2 have "trace w' = trace w @ ?n2 \<and> list_runs ?n2 = [] \<and> total_values ?n2 = []
             \<and> p \<le> p + 1 \<and> processed_values ?n2 = [p + 1..p + 1]
             \<and> (\<forall>b p'. r = Inr (b, p') \<longrightarrow> p + 1 = p')"
            by simp
          then show ?thesis by blast
        next
          case (Inr u1)
          with Cons.prems f rf u have rec: "index_loop em dn cd ls ?b2 (p + 1) w2 = (r, w')"
            by (simp add: index_loop_Some [OF pl] del: index_loop.simps)
          from Cons.IH [OF rec] obtain new q where
            ih: "trace w' = trace w2 @ new" "list_runs new = []" "total_values new = []"
              "p + 1 \<le> q" "processed_values new = [p + 1 + 1..q]"
              "\<forall>b p'. r = Inr (b, p') \<longrightarrow> q = p'"
            by blast
          have "[p + 1] @ [p + 1 + 1..q] = [p + 1..q]"
            using ih(4) upto_rec1 [of "p + 1" q] by simp
          with ih t2 n2 have "trace w' = trace w @ (?n2 @ new) \<and> list_runs (?n2 @ new) = []
             \<and> total_values (?n2 @ new) = [] \<and> p \<le> q \<and> processed_values (?n2 @ new) = [p + 1..q]
             \<and> (\<forall>b p'. r = Inr (b, p') \<longrightarrow> q = p')"
            by (simp add: list_runs_append total_values_append processed_values_append del: upto.simps)
          then show ?thesis by blast
        qed
      qed
    qed
  qed
qed

lemma index_target_trace:
  assumes "index_target ev dn dp p w = (r, w')"
  shows "\<exists>new q. trace w' = trace w @ new \<and> list_runs new = [target_name (dn, dp)] \<and> total_values new = []
     \<and> p \<le> q \<and> processed_values new = [p + 1..q]
     \<and> (\<forall>p'. r = Inr p' \<longrightarrow> q = p')"
proof -
  let ?t = "target_of dn (clean_dir_of dp)"
  let ?w0 = "log_event (ListRun ?t) w"
  obtain r1 w1 where l: "index_loop (emitter ev) dn (clean_dir_of dp) (lsf_lines (lsf_run ev ?t)) [] p ?w0 = (r1, w1)"
    by (cases "index_loop (emitter ev) dn (clean_dir_of dp) (lsf_lines (lsf_run ev ?t)) [] p ?w0") auto
  from index_loop_trace [OF l] obtain new q where
    n: "trace w1 = trace ?w0 @ new" "list_runs new = []" "total_values new = []"
       "p \<le> q" "processed_values new = [p + 1..q]" "\<forall>b p'. r1 = Inr (b, p') \<longrightarrow> q = p'"
    by blast
  have t0: "trace ?w0 = trace w @ [ListRun ?t]" by (simp add: log_event_def)
  have "(\<exists>b. trace w' = trace w1 @ [Commit b]) \<or> w' = w1"
    using assms l
    by (auto simp: index_target_def Let_def split: sum.splits if_splits prod.splits
        dest: flush_batch_Inl flush_batch_Inr)
  then obtain fin where w': "trace w' = trace w1 @ fin" and fin: "list_runs fin = []" "total_values fin = []" "processed_values fin = []"
  proof
    assume "\<exists>b. trace w' = trace w1 @ [Commit b]"
    then obtain b where "trace w' = trace w1 @ [Commit b]" by blast
    then show ?thesis using that [of "[Commit b]"] by simp
  next
    assume "w' = w1"
    then have "trace w' = trace w1 @ []" by simp
    then show ?thesis using that [of "[]"] by simp
  qed
  have rq: "\<forall>p'. r = Inr p' \<longrightarrow> q = p'"
    using assms l n(6)
    by (auto simp: index_target_def Let_def split: sum.splits if_splits prod.splits)
  let ?all = "[ListRun ?t] @ new @ fin"
  have "trace w' = trace w @ ?all \<and> list_runs ?all = [target_name (dn, dp)] \<and> total_values ?all = []
     \<and> p \<le> q \<and> processed_values ?all = [p + 1..q]"
    using n t0 w' fin
    by (simp add: list_runs_append total_values_append processed_values_append target_name_def del: upto.simps)
  with rq show ?thesis by blast
qed

section \<open>Counting and ingesting a list of targets\<close>

lemma count_all_items_result:
  "count_all_items ev ts tot w
     = (tot + sum_list (map (count_or_zero ev) ts),
        w\<lparr>trace := trace w @ map (\<lambda>t. CountRun (target_name t)) ts\<rparr>)"
proof (induction ts arbitrary: tot w)
  case Nil
  show ?case by simp
next
  case (Cons t ts)
  obtain dn dp where t: "t = (dn, dp)" by (cases t)
  show ?case
    by (cases "count_remote_items ev dn dp")
       (simp_all add: t Cons count_or_zero_def log_event_def target_name_def Let_def)
qed

lemma index_target_Inr_vocab:
  assumes "index_target ev (fst t) (snd t) p w = (Inr p', w')"
  shows "target_ok ev t \<and> target_clean ev t \<and> p' = p + int (length (target_records ev t))
     \<and> store_of w' = upsert_all (target_records ev t) (store_of w)
     \<and> committed (trace w') = committed (trace w) @ target_records ev t"
  using index_target_Inr [OF assms]
  by (simp add: target_ok_def target_clean_def target_records_def target_name_def)

lemma index_target_failed_vocab:
  assumes "\<not> target_ok ev t" "emit_safe (emitter ev)" "target_readable ev t"
  shows "\<exists>w'. index_target ev (fst t) (snd t) p w = (Inl (listing_error ev t), w')
     \<and> store_of w' = upsert_all (take (full_batches (length (target_records ev t))) (target_records ev t)) (store_of w)
     \<and> committed (trace w') = committed (trace w) @ take (full_batches (length (target_records ev t))) (target_records ev t)"
proof -
  from assms(1) have rc: "lsf_returncode (lsf_run ev (target_of (fst t) (clean_dir_of (snd t)))) \<noteq> 0"
    by (simp add: target_ok_def target_name_def)
  from assms(3) have nr: "no_line_raises (fst t) (clean_dir_of (snd t))
      (lsf_lines (lsf_run ev (target_of (fst t) (clean_dir_of (snd t)))))"
    and sf: "list_all storable (take (full_batches (length (parsed_records (fst t) (clean_dir_of (snd t))
        (lsf_lines (lsf_run ev (target_of (fst t) (clean_dir_of (snd t))))))))
        (parsed_records (fst t) (clean_dir_of (snd t)) (lsf_lines (lsf_run ev (target_of (fst t) (clean_dir_of (snd t)))))))"
    by (simp_all add: target_readable_def target_records_def target_name_def)
  from index_target_listing_failed [OF rc assms(2) nr sf, of p w]
  show ?thesis
    by (simp add: target_records_def target_name_def listing_error_def)
qed

lemma index_target_total_vocab:
  assumes "target_ok ev t" "emit_safe (emitter ev)" "target_clean ev t"
  shows "\<exists>p' w'. index_target ev (fst t) (snd t) p w = (Inr p', w')"
  using index_target_total [of ev "fst t" "snd t" p w] assms
  by (simp add: target_ok_def target_clean_def target_records_def target_name_def)

lemma index_target_any_vocab:
  assumes "index_target ev (fst t) (snd t) p w = (r, w')"
  shows "\<exists>n. n \<le> length (target_records ev t)
     \<and> committed (trace w') = committed (trace w) @ take n (target_records ev t)
     \<and> store_of w' = upsert_all (take n (target_records ev t)) (store_of w)
     \<and> (isl r \<longrightarrow> n \<le> full_batches (length (target_records ev t)))
     \<and> (\<not> target_ok ev t \<longrightarrow> isl r)"
proof -
  from index_target_any [OF assms] obtain n where
    n: "n \<le> length (target_records ev t)"
       "committed (trace w') = committed (trace w) @ take n (target_records ev t)"
       "store_of w' = upsert_all (take n (target_records ev t)) (store_of w)"
       "isl r \<longrightarrow> batch_size dvd n" "\<not> target_ok ev t \<longrightarrow> isl r"
    by (auto simp: target_records_def target_name_def target_ok_def)
  have "n \<le> full_batches (length (target_records ev t))" if "isl r"
  proof -
    from that n(4) obtain k where k: "n = batch_size * k" by (auto simp: dvd_def)
    with n(1) have "k \<le> length (target_records ev t) div batch_size"
      by (simp add: batch_size_def less_eq_div_iff_mult_less_eq mult.commute)
    then have "k * batch_size \<le> length (target_records ev t) div batch_size * batch_size" by simp
    with k show ?thesis by (simp add: full_batches_def mult.commute)
  qed
  with n show ?thesis by blast
qed

lemma all_records_Nil: "all_records ev [] = []"
  by (simp add: all_records_def)

lemma all_records_Cons: "all_records ev (t # ts) = target_records ev t @ all_records ev ts"
  by (simp add: all_records_def)

lemma all_records_append: "all_records ev (xs @ ys) = all_records ev xs @ all_records ev ys"
  by (simp add: all_records_def)

lemma index_all_Cons:
  "index_all ev (t # ts) p w =
     (case index_target ev (fst t) (snd t) p w of
        (Inl err, w1) \<Rightarrow> (Inl err, w1)
      | (Inr p1, w1) \<Rightarrow> index_all ev ts p1 w1)"
  by (cases t) simp

lemma index_all_Inr:
  assumes "index_all ev ts p w = (Inr p', w')"
  shows "list_all (target_ok ev) ts \<and> list_all (target_clean ev) ts
     \<and> p' = p + int (length (all_records ev ts))
     \<and> store_of w' = upsert_all (all_records ev ts) (store_of w)
     \<and> committed (trace w') = committed (trace w) @ all_records ev ts"
  using assms
proof (induction ts arbitrary: p w)
  case Nil
  then show ?case by (simp add: all_records_Nil upsert_all_Nil)
next
  case (Cons t ts)
  obtain r w1 where it: "index_target ev (fst t) (snd t) p w = (r, w1)"
    by (cases "index_target ev (fst t) (snd t) p w") auto
  with Cons.prems obtain p1 where r: "r = Inr p1" and rest: "index_all ev ts p1 w1 = (Inr p', w')"
    by (auto simp: index_all_Cons split: sum.splits)
  note a = index_target_Inr_vocab [OF it [unfolded r]]
  note b = Cons.IH [OF rest]
  from a b show ?case
    by (simp add: all_records_Cons upsert_all_append)
qed

lemma index_all_total:
  assumes "emit_safe (emitter ev)" "list_all (target_ok ev) ts" "list_all (target_clean ev) ts"
  shows "\<exists>p' w'. index_all ev ts p w = (Inr p', w')"
  using assms(2,3)
proof (induction ts arbitrary: p w)
  case Nil
  show ?case by simp
next
  case (Cons t ts)
  from Cons.prems have ok: "target_ok ev t" and oks: "list_all (target_ok ev) ts"
    and cl: "target_clean ev t" and cls: "list_all (target_clean ev) ts" by simp_all
  from index_target_total_vocab [OF ok assms(1) cl, of p w]
  obtain p1 w1 where "index_target ev (fst t) (snd t) p w = (Inr p1, w1)" by blast
  with Cons.IH [OF oks cls, of p1 w1] show ?case by (simp add: index_all_Cons)
qed

lemma index_all_trace:
  assumes "index_all ev ts p w = (r, w')"
  shows "\<exists>new q k. trace w' = trace w @ new \<and> list_runs new = map target_name (take k ts)
     \<and> total_values new = [] \<and> p \<le> q \<and> processed_values new = [p + 1..q]
     \<and> (\<forall>p'. r = Inr p' \<longrightarrow> q = p' \<and> list_runs new = map target_name ts)"
  using assms
proof (induction ts arbitrary: p w)
  case Nil
  then have "trace w' = trace w @ [] \<and> list_runs [] = map target_name (take 0 [])
     \<and> total_values [] = [] \<and> p \<le> p \<and> processed_values [] = [p + 1..p]
     \<and> (\<forall>p'. r = Inr p' \<longrightarrow> p = p' \<and> list_runs [] = map target_name [])"
    by auto
  then show ?case by blast
next
  case (Cons t ts)
  obtain r1 w1 where it: "index_target ev (fst t) (snd t) p w = (r1, w1)"
    by (cases "index_target ev (fst t) (snd t) p w") auto
  from index_target_trace [OF it] obtain n1 q1 where
    n1: "trace w1 = trace w @ n1" "list_runs n1 = [target_name t]" "total_values n1 = []"
        "p \<le> q1" "processed_values n1 = [p + 1..q1]" "\<forall>p'. r1 = Inr p' \<longrightarrow> q1 = p'"
    by auto
  show ?case
  proof (cases r1)
    case (Inl err)
    with Cons.prems it have "r = Inl err" "w' = w1" by (simp_all add: index_all_Cons)
    with n1 have "trace w' = trace w @ n1 \<and> list_runs n1 = map target_name (take 1 (t # ts))
       \<and> total_values n1 = [] \<and> p \<le> q1 \<and> processed_values n1 = [p + 1..q1]
       \<and> (\<forall>p'. r = Inr p' \<longrightarrow> q1 = p' \<and> list_runs n1 = map target_name (t # ts))"
      by simp
    then show ?thesis by blast
  next
    case (Inr p1)
    with Cons.prems it have rest: "index_all ev ts p1 w1 = (r, w')" by (simp add: index_all_Cons)
    from Inr n1(6) have q1: "q1 = p1" by simp
    from Cons.IH [OF rest] obtain n2 q k where
      n2: "trace w' = trace w1 @ n2" "list_runs n2 = map target_name (take k ts)" "total_values n2 = []"
          "p1 \<le> q" "processed_values n2 = [p1 + 1..q]"
          "\<forall>p'. r = Inr p' \<longrightarrow> q = p' \<and> list_runs n2 = map target_name ts"
      by blast
    have j: "[p + 1..p1] @ [p1 + 1..q] = [p + 1..q]"
      using n1(4) n2(4) q1 by (simp add: upto_join)
    have "trace w' = trace w @ (n1 @ n2) \<and> list_runs (n1 @ n2) = map target_name (take (Suc k) (t # ts))
       \<and> total_values (n1 @ n2) = [] \<and> p \<le> q \<and> processed_values (n1 @ n2) = [p + 1..q]
       \<and> (\<forall>p'. r = Inr p' \<longrightarrow> q = p' \<and> list_runs (n1 @ n2) = map target_name (t # ts))"
      using n1 n2 q1 j
      by (simp add: list_runs_append total_values_append processed_values_append del: upto.simps)
    then show ?thesis by blast
  qed
qed

lemma index_all_failed:
  assumes "emit_safe (emitter ev)" "list_all (target_ok ev) pre" "list_all (target_clean ev) pre"
    "\<not> target_ok ev t1" "target_readable ev t1"
  shows "\<exists>w'. index_all ev (pre @ t1 # post) p w = (Inl (listing_error ev t1), w')
     \<and> store_of w' = upsert_all (all_records ev pre
          @ take (full_batches (length (target_records ev t1))) (target_records ev t1)) (store_of w)
     \<and> committed (trace w') = committed (trace w) @ all_records ev pre
          @ take (full_batches (length (target_records ev t1))) (target_records ev t1)
     \<and> list_runs (trace w') = list_runs (trace w) @ map target_name (pre @ [t1])"
  using assms(2,3)
proof (induction pre arbitrary: p w)
  case Nil
  from index_target_failed_vocab [OF assms(4) assms(1) assms(5), of p w]
  obtain w' where f: "index_target ev (fst t1) (snd t1) p w = (Inl (listing_error ev t1), w')"
    and st: "store_of w' = upsert_all (take (full_batches (length (target_records ev t1))) (target_records ev t1)) (store_of w)"
    and cm: "committed (trace w') = committed (trace w) @ take (full_batches (length (target_records ev t1))) (target_records ev t1)"
    by blast
  from index_target_trace [OF f] have "list_runs (trace w') = list_runs (trace w) @ [target_name t1]"
    by (auto simp: list_runs_append)
  with f st cm show ?case
    by (simp add: index_all_Cons all_records_Nil)
next
  case (Cons t pre)
  from Cons.prems have ok: "target_ok ev t" and oks: "list_all (target_ok ev) pre"
    and cl: "target_clean ev t" and cls: "list_all (target_clean ev) pre" by simp_all
  from index_target_total_vocab [OF ok assms(1) cl, of p w]
  obtain p1 w1 where it: "index_target ev (fst t) (snd t) p w = (Inr p1, w1)" by blast
  note a = index_target_Inr_vocab [OF it]
  from index_target_trace [OF it] have lr: "list_runs (trace w1) = list_runs (trace w) @ [target_name t]"
    by (auto simp: list_runs_append)
  from Cons.IH [OF oks cls, of p1 w1] obtain w' where
    b: "index_all ev (pre @ t1 # post) p1 w1 = (Inl (listing_error ev t1), w')"
       "store_of w' = upsert_all (all_records ev pre
          @ take (full_batches (length (target_records ev t1))) (target_records ev t1)) (store_of w1)"
       "committed (trace w') = committed (trace w1) @ all_records ev pre
          @ take (full_batches (length (target_records ev t1))) (target_records ev t1)"
       "list_runs (trace w') = list_runs (trace w1) @ map target_name (pre @ [t1])"
    by blast
  from it b(1) have "index_all ev ((t # pre) @ t1 # post) p w = (Inl (listing_error ev t1), w')"
    by (simp add: index_all_Cons)
  with a b(2,3,4) lr show ?case
    by (simp add: all_records_Cons upsert_all_append)
qed

text \<open>
  Whatever else goes wrong, a list of targets with a failing listing ends in an error, no
  listing is launched after the failing one, and what is committed is a front part of the
  records that stops short of the failing listing's partial batch.
\<close>

lemma index_all_any:
  assumes "index_all ev (pre @ t1 # post) p w = (r, w')" "\<not> target_ok ev t1"
  shows "isl r
     \<and> (\<exists>k n. k \<le> Suc (length pre)
          \<and> list_runs (trace w') = list_runs (trace w) @ map target_name (take k (pre @ [t1]))
          \<and> n \<le> length (all_records ev pre) + full_batches (length (target_records ev t1))
          \<and> committed (trace w') = committed (trace w) @ take n (all_records ev (pre @ [t1]))
          \<and> store_of w' = upsert_all (take n (all_records ev (pre @ [t1]))) (store_of w))"
  using assms(1)
proof (induction pre arbitrary: p w)
  case Nil
  obtain r1 w1 where it: "index_target ev (fst t1) (snd t1) p w = (r1, w1)"
    by (cases "index_target ev (fst t1) (snd t1) p w") auto
  from index_target_any_vocab [OF it] assms(2) obtain n where
    n: "committed (trace w1) = committed (trace w) @ take n (target_records ev t1)"
       "store_of w1 = upsert_all (take n (target_records ev t1)) (store_of w)"
       "n \<le> full_batches (length (target_records ev t1))" "isl r1"
    by blast
  from n(4) obtain err where r1: "r1 = Inl err" by (cases r1) auto
  with Nil it have r: "r = Inl err" and w': "w' = w1" by (simp_all add: index_all_Cons)
  from index_target_trace [OF it] have lr: "list_runs (trace w1) = list_runs (trace w) @ [target_name t1]"
    by (auto simp: list_runs_append)
  have "Suc 0 \<le> Suc (length ([]::(string \<times> string) list))
          \<and> list_runs (trace w') = list_runs (trace w) @ map target_name (take (Suc 0) ([] @ [t1]))
          \<and> n \<le> length (all_records ev []) + full_batches (length (target_records ev t1))
          \<and> committed (trace w') = committed (trace w) @ take n (all_records ev ([] @ [t1]))
          \<and> store_of w' = upsert_all (take n (all_records ev ([] @ [t1]))) (store_of w)"
    using n lr w' by (simp add: all_records_Nil all_records_Cons)
  moreover from r have "isl r" by simp
  ultimately show ?case by blast
next
  case (Cons t pre)
  obtain r1 w1 where it: "index_target ev (fst t) (snd t) p w = (r1, w1)"
    by (cases "index_target ev (fst t) (snd t) p w") auto
  from index_target_trace [OF it] have lr: "list_runs (trace w1) = list_runs (trace w) @ [target_name t]"
    by (auto simp: list_runs_append)
  show ?case
  proof (cases r1)
    case (Inl err)
    with Cons.prems it have r: "r = Inl err" and w': "w' = w1" by (simp_all add: index_all_Cons)
    from index_target_any_vocab [OF it] obtain n where
      n: "n \<le> length (target_records ev t)"
         "committed (trace w1) = committed (trace w) @ take n (target_records ev t)"
         "store_of w1 = upsert_all (take n (target_records ev t)) (store_of w)"
      by blast
    have "Suc 0 \<le> Suc (length (t # pre))
          \<and> list_runs (trace w') = list_runs (trace w) @ map target_name (take (Suc 0) ((t # pre) @ [t1]))
          \<and> n \<le> length (all_records ev (t # pre)) + full_batches (length (target_records ev t1))
          \<and> committed (trace w') = committed (trace w) @ take n (all_records ev ((t # pre) @ [t1]))
          \<and> store_of w' = upsert_all (take n (all_records ev ((t # pre) @ [t1]))) (store_of w)"
      using n lr w' by (simp add: all_records_Cons)
    moreover from r have "isl r" by simp
    ultimately show ?thesis by blast
  next
    case (Inr p1)
    with Cons.prems it have rest: "index_all ev (pre @ t1 # post) p1 w1 = (r, w')"
      by (simp add: index_all_Cons)
    note a = index_target_Inr_vocab [OF it [unfolded Inr]]
    from Cons.IH [OF rest] obtain k n where
      isl: "isl r" and
      kn: "k \<le> Suc (length pre)"
          "list_runs (trace w') = list_runs (trace w1) @ map target_name (take k (pre @ [t1]))"
          "n \<le> length (all_records ev pre) + full_batches (length (target_records ev t1))"
          "committed (trace w') = committed (trace w1) @ take n (all_records ev (pre @ [t1]))"
          "store_of w' = upsert_all (take n (all_records ev (pre @ [t1]))) (store_of w1)"
      by blast
    have tk: "take (length (target_records ev t) + n) (all_records ev ((t # pre) @ [t1]))
        = target_records ev t @ take n (all_records ev (pre @ [t1]))"
      by (simp add: all_records_Cons)
    have "Suc k \<le> Suc (length (t # pre))
          \<and> list_runs (trace w') = list_runs (trace w) @ map target_name (take (Suc k) ((t # pre) @ [t1]))
          \<and> length (target_records ev t) + n \<le> length (all_records ev (t # pre)) + full_batches (length (target_records ev t1))
          \<and> committed (trace w') = committed (trace w) @ take (length (target_records ev t) + n) (all_records ev ((t # pre) @ [t1]))
          \<and> store_of w' = upsert_all (take (length (target_records ev t) + n) (all_records ev ((t # pre) @ [t1]))) (store_of w)"
      unfolding tk using kn a lr
      by (simp add: all_records_Cons upsert_all_append)
    with isl show ?thesis by blast
  qed
qed

section \<open>The run as a whole\<close>

lemma fetch_unfold:
  assumes "validate_config ev ds = Inr ()" "resolve_targets ds (sections ev) = Inr ts" "ts \<noteq> []"
  shows "fetch ev ds w =
     (case emit_progress_safe (emitter ev) (started ev ts w) of
        (Inl err, w4) \<Rightarrow> (Inl err, w4)
      | (Inr u1, w4) \<Rightarrow>
          (case index_all ev ts 0 w4 of
             (Inl err, w5) \<Rightarrow> (Inl err, log_event CloseConn w5)
           | (Inr processed, w5) \<Rightarrow>
               (case emit_progress_safe (emitter ev) (log_event SetFetchCompleted (log_event CloseConn w5)) of
                  (Inl err, w7) \<Rightarrow> (Inl err, w7)
                | (Inr u2, w7) \<Rightarrow> (Inr \<lparr>total_indexed = processed, remotes = set (map fst ts)\<rparr>, w7))))"
proof -
  have "log_event (SetProcessedItems 0) (log_event (SetTotalItems (sum_list (map (count_or_zero ev) ts)))
          ((init_db (log_event MakeDirs w))\<lparr>trace := trace (init_db (log_event MakeDirs w))
              @ map (\<lambda>t. CountRun (target_name t)) ts\<rparr>)) = started ev ts w"
    by (simp add: started_def log_event_def init_db_def)
  then show ?thesis
    using assms by (simp add: fetch_def count_all_items_result Let_def split: prod.splits sum.splits)
qed

lemma started_frame:
  "store_of (started ev ts w) = store_of w" "emit_calls (started ev ts w) = emit_calls w"
  by (simp_all add: started_def store_of_def)


lemma validate_config_cases:
  "validate_config ev ds = Inr () \<or> (\<exists>e. validate_config ev ds = Inl e)"
  by (simp add: validate_config_def)

lemma count_runs_projections:
  "list_runs (map (\<lambda>t. CountRun (target_name t)) ts) = []"
  "total_values (map (\<lambda>t. CountRun (target_name t)) ts) = []"
  "processed_values (map (\<lambda>t. CountRun (target_name t)) ts) = []"
  "committed (map (\<lambda>t. CountRun (target_name t)) ts) = []"
  by (induction ts) simp_all

lemma started_trace:
  "trace (started ev ts w) = trace w @ ([MakeDirs, Connect] @ map (\<lambda>t. CountRun (target_name t)) ts)
      @ [SetTotalItems (sum_list (map (count_or_zero ev) ts)), SetProcessedItems 0]"
  by (simp add: started_def)

lemma started_committed: "committed (trace (started ev ts w)) = committed (trace w)"
  unfolding started_trace
  by (simp add: committed_append count_runs_projections del: append_assoc map_append)

lemma started_list_runs: "list_runs (trace (started ev ts w)) = list_runs (trace w)"
  unfolding started_trace
  by (simp add: list_runs_append count_runs_projections del: append_assoc map_append)

lemma fetch_Inr:
  assumes "fetch ev ds w = (Inr s, w')"
  shows "\<exists>ts. validate_config ev ds = Inr () \<and> resolve_targets ds (sections ev) = Inr ts \<and> ts \<noteq> []
     \<and> list_all (target_ok ev) ts \<and> list_all (target_clean ev) ts
     \<and> s = \<lparr>total_indexed = int (length (all_records ev ts)), remotes = set (map fst ts)\<rparr>
     \<and> store_of w' = upsert_all (all_records ev ts) (store_of w)
     \<and> committed (trace w') = committed (trace w) @ all_records ev ts"
proof -
  from assms have v: "validate_config ev ds = Inr ()"
    by (cases "validate_config ev ds") (auto simp: fetch_def)
  from assms v obtain ts where r: "resolve_targets ds (sections ev) = Inr ts"
    by (cases "resolve_targets ds (sections ev)") (auto simp: fetch_def)
  from assms v r have ne: "ts \<noteq> []" by (auto simp: fetch_def)
  note f = assms [unfolded fetch_unfold [OF v r ne]]
  obtain r4 w4 where e1: "emit_progress_safe (emitter ev) (started ev ts w) = (r4, w4)"
    by (cases "emit_progress_safe (emitter ev) (started ev ts w)") auto
  obtain r5 w5 where ia: "index_all ev ts 0 w4 = (r5, w5)"
    by (cases "index_all ev ts 0 w4") auto
  obtain r7 w7 where e2: "emit_progress_safe (emitter ev) (log_event SetFetchCompleted (log_event CloseConn w5)) = (r7, w7)"
    by (cases "emit_progress_safe (emitter ev) (log_event SetFetchCompleted (log_event CloseConn w5))") auto
  from f e1 ia e2 obtain p where r5: "r5 = Inr p" and s: "s = \<lparr>total_indexed = p, remotes = set (map fst ts)\<rparr>"
    and w': "w' = w7"
    by (auto split: sum.splits)
  from emit_progress_safe_cases [OF e1] have s4: "store_of w4 = store_of w"
    and c4: "committed (trace w4) = committed (trace w)"
    by (simp_all add: started_frame committed_append started_committed)
  from index_all_Inr [OF ia [unfolded r5]]
  have ok: "list_all (target_ok ev) ts" and cl: "list_all (target_clean ev) ts"
    and p: "p = int (length (all_records ev ts))"
    and s5: "store_of w5 = upsert_all (all_records ev ts) (store_of w4)"
    and c5: "committed (trace w5) = committed (trace w4) @ all_records ev ts"
    by simp_all
  from emit_progress_safe_cases [OF e2] have s7: "store_of w7 = store_of w5"
    by (simp add: store_of_log_event)
  from emit_progress_safe_cases [OF e2] have c7: "committed (trace w7) = committed (trace w5)"
    by (simp add: committed_append log_event_def)
  from v r ne ok cl s p s4 s5 s7 c4 c5 c7 w' show ?thesis by simp
qed

lemma fetch_total:
  assumes "emit_safe (emitter ev)" "validate_config ev ds = Inr ()"
    "resolve_targets ds (sections ev) = Inr ts" "ts \<noteq> []" "list_all (target_ok ev) ts"
    "list_all (target_clean ev) ts"
  shows "\<exists>w'. fetch ev ds w =
     (Inr \<lparr>total_indexed = int (length (all_records ev ts)), remotes = set (map fst ts)\<rparr>, w')"
proof -
  obtain r4 w4 where e1: "emit_progress_safe (emitter ev) (started ev ts w) = (r4, w4)"
    by (cases "emit_progress_safe (emitter ev) (started ev ts w)") auto
  with emit_progress_safe_ok [OF assms(1), of "started ev ts w"] have r4: "r4 = Inr ()" by simp
  from index_all_total [OF assms(1) assms(5) assms(6), of 0 w4]
  obtain p w5 where ia: "index_all ev ts 0 w4 = (Inr p, w5)" by blast
  from index_all_Inr [OF ia] have p: "p = int (length (all_records ev ts))" by simp
  obtain r7 w7 where e2: "emit_progress_safe (emitter ev) (log_event SetFetchCompleted (log_event CloseConn w5)) = (r7, w7)"
    by (cases "emit_progress_safe (emitter ev) (log_event SetFetchCompleted (log_event CloseConn w5))") auto
  with emit_progress_safe_ok [OF assms(1), of "log_event SetFetchCompleted (log_event CloseConn w5)"]
  have r7: "r7 = Inr ()" by simp
  show ?thesis
    unfolding fetch_unfold [OF assms(2,3,4)]
    by (simp add: e1 r4 ia p e2 r7)
qed

lemma fetch_listing_failed:
  assumes "emit_safe (emitter ev)" "validate_config ev ds = Inr ()"
    "resolve_targets ds (sections ev) = Inr (pre @ t1 # post)"
    "list_all (target_ok ev) pre" "list_all (target_clean ev) pre"
    "\<not> target_ok ev t1" "target_readable ev t1"
  shows "\<exists>w'. fetch ev ds w = (Inl (listing_error ev t1), w')
     \<and> store_of w' = upsert_all (all_records ev pre
          @ take (full_batches (length (target_records ev t1))) (target_records ev t1)) (store_of w)
     \<and> list_runs (trace w') = list_runs (trace w) @ map target_name (pre @ [t1])
     \<and> total_values (trace w') = total_values (trace w) @ [sum_list (map (count_or_zero ev) (pre @ t1 # post))]"
proof -
  let ?ts = "pre @ t1 # post"
  have ne: "?ts \<noteq> []" by simp
  obtain r4 w4 where e1: "emit_progress_safe (emitter ev) (started ev ?ts w) = (r4, w4)"
    by (cases "emit_progress_safe (emitter ev) (started ev ?ts w)") auto
  with emit_progress_safe_ok [OF assms(1), of "started ev ?ts w"] have r4: "r4 = Inr ()" by simp
  from emit_progress_safe_cases [OF e1]
  have s4: "store_of w4 = store_of w"
    and t4: "trace w4 = trace (started ev ?ts w) @ [EmitProgress (emitter ev (emit_calls (started ev ?ts w)))]"
    by (simp_all add: started_frame)
  have l4: "list_runs (trace w4) = list_runs (trace w)"
    unfolding t4 started_trace
    by (simp add: list_runs_append count_runs_projections del: append_assoc map_append)
  have v4: "total_values (trace w4) = total_values (trace w) @ [sum_list (map (count_or_zero ev) ?ts)]"
    unfolding t4 started_trace
    by (simp add: total_values_append count_runs_projections del: append_assoc map_append)
  from index_all_failed [OF assms(1,4,5,6,7), of post 0 w4]
  obtain w5 where ia: "index_all ev ?ts 0 w4 = (Inl (listing_error ev t1), w5)"
    and s5: "store_of w5 = upsert_all (all_records ev pre
          @ take (full_batches (length (target_records ev t1))) (target_records ev t1)) (store_of w4)"
    and l5: "list_runs (trace w5) = list_runs (trace w4) @ map target_name (pre @ [t1])"
    by blast
  from index_all_trace [OF ia] have v5: "total_values (trace w5) = total_values (trace w4)"
    by (auto simp: total_values_append)
  have f: "fetch ev ds w = (Inl (listing_error ev t1), log_event CloseConn w5)"
    unfolding fetch_unfold [OF assms(2,3) ne]
    by (simp add: e1 r4 ia)
  have "store_of (log_event CloseConn w5) = upsert_all (all_records ev pre
          @ take (full_batches (length (target_records ev t1))) (target_records ev t1)) (store_of w)"
    by (simp only: store_of_log_event s5 s4)
  moreover have "list_runs (trace (log_event CloseConn w5)) = list_runs (trace w) @ map target_name (pre @ [t1])"
    by (simp add: log_event_def list_runs_append l5 l4)
  moreover have "total_values (trace (log_event CloseConn w5))
      = total_values (trace w) @ [sum_list (map (count_or_zero ev) ?ts)]"
    by (simp add: log_event_def total_values_append v5 v4)
  ultimately show ?thesis using f by blast
qed

text \<open>
  A run with a failing listing among its targets ends in an error whatever else happens;
  no listing is launched after the failing one, and the store is the store before with a
  front part of the records upserted that stops short of the failing listing's partial batch.
\<close>

lemma fetch_failing_target:
  assumes "validate_config ev ds = Inr ()" "resolve_targets ds (sections ev) = Inr (pre @ t1 # post)"
    "\<not> target_ok ev t1"
  shows "\<exists>err w' k n. fetch ev ds w = (Inl err, w')
     \<and> k \<le> Suc (length pre)
     \<and> list_runs (trace w') = list_runs (trace w) @ map target_name (take k (pre @ [t1]))
     \<and> n \<le> length (all_records ev pre) + full_batches (length (target_records ev t1))
     \<and> committed (trace w') = committed (trace w) @ take n (all_records ev (pre @ [t1]))
     \<and> store_of w' = upsert_all (take n (all_records ev (pre @ [t1]))) (store_of w)"
proof -
  let ?ts = "pre @ t1 # post"
  have ne: "?ts \<noteq> []" by simp
  obtain r4 w4 where e1: "emit_progress_safe (emitter ev) (started ev ?ts w) = (r4, w4)"
    by (cases "emit_progress_safe (emitter ev) (started ev ?ts w)") auto
  from emit_progress_safe_cases [OF e1]
  have s4: "store_of w4 = store_of w" and c4: "committed (trace w4) = committed (trace w)"
    and l4: "list_runs (trace w4) = list_runs (trace w)"
    by (simp_all add: started_frame committed_append started_committed list_runs_append started_list_runs)
  show ?thesis
  proof (cases r4)
    case (Inl err)
    then have "fetch ev ds w = (Inl err, w4)"
      unfolding fetch_unfold [OF assms(1,2) ne] by (simp add: e1)
    moreover have "0 \<le> Suc (length pre)
       \<and> list_runs (trace w4) = list_runs (trace w) @ map target_name (take 0 (pre @ [t1]))
       \<and> 0 \<le> length (all_records ev pre) + full_batches (length (target_records ev t1))
       \<and> committed (trace w4) = committed (trace w) @ take 0 (all_records ev (pre @ [t1]))
       \<and> store_of w4 = upsert_all (take 0 (all_records ev (pre @ [t1]))) (store_of w)"
      using s4 c4 l4 by (simp add: upsert_all_Nil)
    ultimately show ?thesis by blast
  next
    case (Inr u1)
    obtain r5 w5 where ia: "index_all ev ?ts 0 w4 = (r5, w5)"
      by (cases "index_all ev ?ts 0 w4") auto
    from index_all_any [OF ia assms(3)] obtain k n where
      isl: "isl r5" and
      kn: "k \<le> Suc (length pre)"
          "list_runs (trace w5) = list_runs (trace w4) @ map target_name (take k (pre @ [t1]))"
          "n \<le> length (all_records ev pre) + full_batches (length (target_records ev t1))"
          "committed (trace w5) = committed (trace w4) @ take n (all_records ev (pre @ [t1]))"
          "store_of w5 = upsert_all (take n (all_records ev (pre @ [t1]))) (store_of w4)"
      by blast
    from isl obtain err where r5: "r5 = Inl err" by (cases r5) auto
    have "fetch ev ds w = (Inl err, log_event CloseConn w5)"
      unfolding fetch_unfold [OF assms(1,2) ne] by (simp add: e1 Inr ia r5)
    moreover have "k \<le> Suc (length pre)
       \<and> list_runs (trace (log_event CloseConn w5)) = list_runs (trace w) @ map target_name (take k (pre @ [t1]))
       \<and> n \<le> length (all_records ev pre) + full_batches (length (target_records ev t1))
       \<and> committed (trace (log_event CloseConn w5)) = committed (trace w) @ take n (all_records ev (pre @ [t1]))
       \<and> store_of (log_event CloseConn w5) = upsert_all (take n (all_records ev (pre @ [t1]))) (store_of w)"
      using kn s4 c4 l4
      by (simp add: store_of_log_event) (simp add: log_event_def list_runs_append committed_append)
    ultimately show ?thesis by blast
  qed
qed

lemma fetch_trace:
  assumes "validate_config ev ds = Inr ()" "resolve_targets ds (sections ev) = Inr ts" "ts \<noteq> []"
    "fetch ev ds w = (r, w')"
  shows "\<exists>pre post q. trace w' = trace w @ pre
        @ [SetTotalItems (sum_list (map (count_or_zero ev) ts)), SetProcessedItems 0] @ post
     \<and> list_runs pre = [] \<and> total_values pre = [] \<and> processed_values pre = []
     \<and> total_values post = [] \<and> 0 \<le> q \<and> processed_values post = [1..q]
     \<and> (\<forall>s. r = Inr s \<longrightarrow> q = total_indexed s \<and> q = int (length (all_records ev ts))
            \<and> list_runs post = map target_name ts)"
proof -
  let ?pre = "[MakeDirs, Connect] @ map (\<lambda>t. CountRun (target_name t)) ts"
  let ?mid = "[SetTotalItems (sum_list (map (count_or_zero ev) ts)), SetProcessedItems 0]"
  have pre: "list_runs ?pre = []" "total_values ?pre = []" "processed_values ?pre = []"
    by (simp_all add: count_runs_projections)
  note f = assms(4) [unfolded fetch_unfold [OF assms(1,2,3)]]
  obtain r4 w4 where e1: "emit_progress_safe (emitter ev) (started ev ts w) = (r4, w4)"
    by (cases "emit_progress_safe (emitter ev) (started ev ts w)") auto
  from emit_progress_safe_cases [OF e1] obtain x1 where
    t4: "trace w4 = trace w @ ?pre @ ?mid @ [EmitProgress x1]"
    by (simp add: started_trace)
  show ?thesis
  proof (cases r4)
    case (Inl err)
    with f e1 have "r = Inl err" "w' = w4" by simp_all
    with t4 pre have "trace w' = trace w @ ?pre @ ?mid @ [EmitProgress x1]
       \<and> list_runs ?pre = [] \<and> total_values ?pre = [] \<and> processed_values ?pre = []
       \<and> total_values [EmitProgress x1] = [] \<and> (0::int) \<le> 0 \<and> processed_values [EmitProgress x1] = [1..0]
       \<and> (\<forall>s. r = Inr s \<longrightarrow> 0 = total_indexed s \<and> 0 = int (length (all_records ev ts))
              \<and> list_runs [EmitProgress x1] = map target_name ts)"
      by simp
    then show ?thesis by blast
  next
    case (Inr u1)
    obtain r5 w5 where ia: "index_all ev ts 0 w4 = (r5, w5)"
      by (cases "index_all ev ts 0 w4") auto
    from index_all_trace [OF ia] obtain new q k where
      n: "trace w5 = trace w4 @ new" "list_runs new = map target_name (take k ts)" "total_values new = []"
         "0 \<le> q" "processed_values new = [0 + 1..q]"
         "\<forall>p'. r5 = Inr p' \<longrightarrow> q = p' \<and> list_runs new = map target_name ts"
      by blast
    show ?thesis
    proof (cases r5)
      case (Inl err)
      with f e1 Inr ia have "r = Inl err" "w' = log_event CloseConn w5" by simp_all
      with t4 n pre have "trace w' = trace w @ ?pre @ ?mid @ ([EmitProgress x1] @ new @ [CloseConn])
         \<and> list_runs ?pre = [] \<and> total_values ?pre = [] \<and> processed_values ?pre = []
         \<and> total_values ([EmitProgress x1] @ new @ [CloseConn]) = [] \<and> 0 \<le> q
         \<and> processed_values ([EmitProgress x1] @ new @ [CloseConn]) = [1..q]
         \<and> (\<forall>s. r = Inr s \<longrightarrow> q = total_indexed s \<and> q = int (length (all_records ev ts))
                \<and> list_runs ([EmitProgress x1] @ new @ [CloseConn]) = map target_name ts)"
        by (simp add: log_event_def total_values_append processed_values_append del: upto.simps)
      then show ?thesis by blast
    next
      case p: (Inr p)
      obtain r7 w7 where e2: "emit_progress_safe (emitter ev) (log_event SetFetchCompleted (log_event CloseConn w5)) = (r7, w7)"
        by (cases "emit_progress_safe (emitter ev) (log_event SetFetchCompleted (log_event CloseConn w5))") auto
      from emit_progress_safe_cases [OF e2] obtain x2 where
        t7: "trace w7 = trace w5 @ [CloseConn, SetFetchCompleted, EmitProgress x2]"
        by (simp add: log_event_def)
      from f e1 Inr ia p e2 have w': "w' = w7" and rr: "\<forall>s. r = Inr s \<longrightarrow> total_indexed s = p"
        by (auto split: sum.splits)
      from n(6) p have qp: "q = p" and lr: "list_runs new = map target_name ts" by simp_all
      from index_all_Inr [OF ia [unfolded p]] have pl: "p = int (length (all_records ev ts))" by simp
      let ?post = "[EmitProgress x1] @ new @ [CloseConn, SetFetchCompleted, EmitProgress x2]"
      from t4 n t7 w' pre rr qp lr pl
      have "trace w' = trace w @ ?pre @ ?mid @ ?post
         \<and> list_runs ?pre = [] \<and> total_values ?pre = [] \<and> processed_values ?pre = []
         \<and> total_values ?post = [] \<and> 0 \<le> q \<and> processed_values ?post = [1..q]
         \<and> (\<forall>s. r = Inr s \<longrightarrow> q = total_indexed s \<and> q = int (length (all_records ev ts))
                \<and> list_runs ?post = map target_name ts)"
        by (simp add: total_values_append processed_values_append list_runs_append del: upto.simps)
      then show ?thesis by blast
    qed
  qed
qed

section \<open>Recovered counting, fatal listing\<close>

lemma count_or_zero_cases:
  "count_remote_items ev (fst t) (snd t) = Inl e \<Longrightarrow> count_or_zero ev t = 0"
  "count_remote_items ev (fst t) (snd t) = Inr n \<Longrightarrow> count_or_zero ev t = n"
  by (simp_all add: count_or_zero_def)

lemma fetch_success_total:
  assumes "emit_safe (emitter ev)" "validate_config ev ds = Inr ()"
    "resolve_targets ds (sections ev) = Inr ts" "ts \<noteq> []" "list_all (target_ok ev) ts"
    "list_all (target_clean ev) ts"
  shows "\<exists>w'. fetch ev ds w =
       (Inr \<lparr>total_indexed = int (length (all_records ev ts)), remotes = set (map fst ts)\<rparr>, w')
     \<and> total_values (trace w') = total_values (trace w) @ [sum_list (map (count_or_zero ev) ts)]"
proof -
  from fetch_total [OF assms, of w] obtain w' where
    f: "fetch ev ds w = (Inr \<lparr>total_indexed = int (length (all_records ev ts)), remotes = set (map fst ts)\<rparr>, w')"
    by blast
  from fetch_trace [OF assms(2,3,4) f] have
    "total_values (trace w') = total_values (trace w) @ [sum_list (map (count_or_zero ev) ts)]"
    by (auto simp: total_values_append)
  with f show ?thesis by blast
qed

text \<open>
  Claim C4, as amended. The item counter never fails: a target whose count fails adds
  nothing, so with a failing first and a succeeding second target the total is the second
  one's count, and a run whose listings all succeed on well-formed lines returns whatever
  the counts did. A listing that exits with a non-zero status makes the run fail, whatever
  else happens: no listing is launched after the failing one, and the store is the store
  before with a front part of the records upserted that stops short of the failing
  listing's partial batch, so what was committed for earlier targets stays. When ingestion
  reaches the end of the failing listing (the emitter stays inside \<^verbatim>\<open>Exception\<close>, the
  earlier listings succeed on well-formed lines, and in the failing one no size field makes
  \<^verbatim>\<open>int\<close> raise and the whole batches are storable), the error is that target's
  listing error, the listings launched are exactly those of the targets up to and
  including the failing one, and the store holds every record of the earlier targets,
  followed by the whole batches of the failing one.
\<close>

theorem fatal_vs_recovered_targets:
  "(count_remote_items ev (fst a) (snd a) = Inl e \<and> count_remote_items ev (fst b) (snd b) = Inr c
      \<longrightarrow> fst (count_all_items ev [a, b] 0 w) = c)
   \<and> fst (count_all_items ev ts tot w) = tot + sum_list (map (count_or_zero ev) ts)
   \<and> (emit_safe (emitter ev) \<and> validate_config ev ds = Inr ()
        \<and> resolve_targets ds (sections ev) = Inr ts \<and> ts \<noteq> []
        \<and> list_all (target_ok ev) ts \<and> list_all (target_clean ev) ts
      \<longrightarrow> (\<exists>w'. fetch ev ds w =
              (Inr \<lparr>total_indexed = int (length (all_records ev ts)), remotes = set (map fst ts)\<rparr>, w')
            \<and> total_values (trace w') = total_values (trace w) @ [sum_list (map (count_or_zero ev) ts)]))
   \<and> (validate_config ev ds = Inr () \<and> resolve_targets ds (sections ev) = Inr (pre @ t1 # post)
        \<and> \<not> target_ok ev t1
      \<longrightarrow> (\<exists>err w' k n. fetch ev ds w = (Inl err, w')
            \<and> k \<le> Suc (length pre)
            \<and> list_runs (trace w') = list_runs (trace w) @ map target_name (take k (pre @ [t1]))
            \<and> n \<le> length (all_records ev pre) + full_batches (length (target_records ev t1))
            \<and> committed (trace w') = committed (trace w) @ take n (all_records ev (pre @ [t1]))
            \<and> store_of w' = upsert_all (take n (all_records ev (pre @ [t1]))) (store_of w)))
   \<and> (emit_safe (emitter ev) \<and> validate_config ev ds = Inr ()
        \<and> resolve_targets ds (sections ev) = Inr (pre @ t1 # post)
        \<and> list_all (target_ok ev) pre \<and> list_all (target_clean ev) pre
        \<and> \<not> target_ok ev t1 \<and> target_readable ev t1
      \<longrightarrow> (\<exists>w'. fetch ev ds w = (Inl (listing_error ev t1), w')
            \<and> store_of w' = upsert_all (all_records ev pre
                 @ take (full_batches (length (target_records ev t1))) (target_records ev t1)) (store_of w)
            \<and> list_runs (trace w') = list_runs (trace w) @ map target_name (pre @ [t1])
            \<and> total_values (trace w') = total_values (trace w)
                 @ [sum_list (map (count_or_zero ev) (pre @ t1 # post))]))"
proof (intro conjI impI)
  assume "count_remote_items ev (fst a) (snd a) = Inl e \<and> count_remote_items ev (fst b) (snd b) = Inr c"
  then show "fst (count_all_items ev [a, b] 0 w) = c"
    by (simp add: count_all_items_result count_or_zero_cases)
next
  show "fst (count_all_items ev ts tot w) = tot + sum_list (map (count_or_zero ev) ts)"
    by (simp add: count_all_items_result)
next
  assume "emit_safe (emitter ev) \<and> validate_config ev ds = Inr ()
        \<and> resolve_targets ds (sections ev) = Inr ts \<and> ts \<noteq> []
        \<and> list_all (target_ok ev) ts \<and> list_all (target_clean ev) ts"
  then show "\<exists>w'. fetch ev ds w =
              (Inr \<lparr>total_indexed = int (length (all_records ev ts)), remotes = set (map fst ts)\<rparr>, w')
            \<and> total_values (trace w') = total_values (trace w) @ [sum_list (map (count_or_zero ev) ts)]"
    using fetch_success_total by blast
next
  assume "validate_config ev ds = Inr () \<and> resolve_targets ds (sections ev) = Inr (pre @ t1 # post)
        \<and> \<not> target_ok ev t1"
  then show "\<exists>err w' k n. fetch ev ds w = (Inl err, w')
            \<and> k \<le> Suc (length pre)
            \<and> list_runs (trace w') = list_runs (trace w) @ map target_name (take k (pre @ [t1]))
            \<and> n \<le> length (all_records ev pre) + full_batches (length (target_records ev t1))
            \<and> committed (trace w') = committed (trace w) @ take n (all_records ev (pre @ [t1]))
            \<and> store_of w' = upsert_all (take n (all_records ev (pre @ [t1]))) (store_of w)"
    using fetch_failing_target [of ev ds pre t1 post w] by blast
next
  assume "emit_safe (emitter ev) \<and> validate_config ev ds = Inr ()
        \<and> resolve_targets ds (sections ev) = Inr (pre @ t1 # post)
        \<and> list_all (target_ok ev) pre \<and> list_all (target_clean ev) pre
        \<and> \<not> target_ok ev t1 \<and> target_readable ev t1"
  then show "\<exists>w'. fetch ev ds w = (Inl (listing_error ev t1), w')
            \<and> store_of w' = upsert_all (all_records ev pre
                 @ take (full_batches (length (target_records ev t1))) (target_records ev t1)) (store_of w)
            \<and> list_runs (trace w') = list_runs (trace w) @ map target_name (pre @ [t1])
            \<and> total_values (trace w') = total_values (trace w)
                 @ [sum_list (map (count_or_zero ev) (pre @ t1 # post))]"
    using fetch_listing_failed by blast
qed

text \<open>
  C4 on three remotes: counting fails for the first, the listing fails for the second, the
  third is never listed, and the row of the first stays.
\<close>

theorem fatal_vs_recovered_targets_witness:
  "fst (count_all_items env_abc [(''a'', []), (''b'', [])] 0 w_empty) = 5
   \<and> fst (fetch env_abc ds_all w_empty) = Inl (RuntimeError ''rclone lsf failed for b:: no such dir'')
   \<and> db_rows (snd (fetch env_abc ds_all w_empty)) = [(1, Entry ''a:a.txt'' ''a'' 1 ''f'' (Some ''t''))]
   \<and> list_runs (trace (snd (fetch env_abc ds_all w_empty))) = [''a:'', ''b:'']
   \<and> total_values (trace (snd (fetch env_abc ds_all w_empty))) = [10]"
proof -
  have ca: "count_remote_items env_abc (fst (''a'', [])) (snd (''a'', [])) = Inl (RuntimeError ''denied'')
     \<and> count_remote_items env_abc (fst (''b'', [])) (snd (''b'', [])) = Inr 5"
    by code_simp
  have em: "emit_safe (emitter env_abc)" by (simp add: env_abc_def emit_safe_def)
  have v: "validate_config env_abc ds_all = Inr ()" by code_simp
  have r: "resolve_targets ds_all (sections env_abc) = Inr ([(''a'', [])] @ (''b'', []) # [(''c'', [])])"
    by code_simp
  have ok: "list_all (target_ok env_abc) [(''a'', [])] \<and> \<not> target_ok env_abc (''b'', [])"
    by code_simp
  have cl: "list_all (target_clean env_abc) [(''a'', [])] \<and> target_readable env_abc (''b'', [])"
    by code_simp
  have recs: "all_records env_abc [(''a'', [])] = [Entry ''a:a.txt'' ''a'' 1 ''f'' (Some ''t'')]"
    by code_simp
  have recs_b: "take (full_batches (length (target_records env_abc (''b'', [])))) (target_records env_abc (''b'', [])) = []"
    by code_simp
  have le: "listing_error env_abc (''b'', []) = RuntimeError ''rclone lsf failed for b:: no such dir''"
    by code_simp
  have cz: "sum_list (map (count_or_zero env_abc) ([(''a'', [])] @ (''b'', []) # [(''c'', [])])) = 10"
    by code_simp
  have tn: "map target_name ([(''a'', [])] @ [(''b'', [])]) = [''a:'', ''b:'']" by code_simp
  have up: "upsert_all [Entry ''a:a.txt'' ''a'' 1 ''f'' (Some ''t'')] (store_of w_empty)
      = ([(1, Entry ''a:a.txt'' ''a'' 1 ''f'' (Some ''t''))], 1)"
    by code_simp
  note T = fatal_vs_recovered_targets [of env_abc "(''a'', [])" "RuntimeError ''denied''" "(''b'', [])" 5
      w_empty "[]" 0 ds_all "[(''a'', [])]" "(''b'', [])" "[(''c'', [])]"]
  from T ca have 1: "fst (count_all_items env_abc [(''a'', []), (''b'', [])] 0 w_empty) = 5" by blast
  from T em v r ok cl obtain w' where
    f: "fetch env_abc ds_all w_empty = (Inl (listing_error env_abc (''b'', [])), w')"
    and st: "store_of w' = upsert_all (all_records env_abc [(''a'', [])]
                 @ take (full_batches (length (target_records env_abc (''b'', []))))
                     (target_records env_abc (''b'', []))) (store_of w_empty)"
    and lr: "list_runs (trace w') = list_runs (trace w_empty) @ map target_name ([(''a'', [])] @ [(''b'', [])])"
    and tv: "total_values (trace w') = total_values (trace w_empty)
                 @ [sum_list (map (count_or_zero env_abc) ([(''a'', [])] @ (''b'', []) # [(''c'', [])]))]"
    by blast
  from st have "store_of w' = ([(1, Entry ''a:a.txt'' ''a'' 1 ''f'' (Some ''t''))], 1)"
    by (simp only: recs recs_b append_Nil2 up)
  then have 3: "db_rows w' = [(1, Entry ''a:a.txt'' ''a'' 1 ''f'' (Some ''t''))]"
    by (simp add: store_of_def)
  from lr have 4: "list_runs (trace w') = [''a:'', ''b:'']"
    by (simp only: tn) (simp add: w_empty_def)
  from tv have 5: "total_values (trace w') = [10]"
    by (simp only: cz) (simp add: w_empty_def)
  from f 1 3 4 5 show ?thesis by (simp add: le)
qed

text \<open>
  C4 as stated fails on a single remote whose listing prints 500 lines, the last with a
  size of \<open>2 ^ 63\<close>, and exits with status 1: the run ends with the
  \<^verbatim>\<open>OverflowError\<close> of the first flush, not with the listing error.
\<close>

theorem fatal_vs_recovered_targets_counterexample:
  "\<not> target_ok (env_lines (replicate 499 line_a1 @ [line_big]) 1) (''r'', [])
   \<and> resolve_targets ds_all (sections (env_lines (replicate 499 line_a1 @ [line_big]) 1)) = Inr [(''r'', [])]
   \<and> fst (fetch (env_lines (replicate 499 line_a1 @ [line_big]) 1) ds_all w_empty)
       = Inl (OverflowError ''Python int too large to convert to SQLite INTEGER'')
   \<and> fst (fetch (env_lines (replicate 499 line_a1 @ [line_big]) 1) ds_all w_empty)
       \<noteq> Inl (listing_error (env_lines (replicate 499 line_a1 @ [line_big]) 1) (''r'', []))"
proof -
  let ?E = "env_lines (replicate 499 line_a1 @ [line_big]) 1"
  have nok: "\<not> target_ok ?E (''r'', [])" by (simp add: target_ok_def env_lines_sel)
  have v: "validate_config ?E ds_all = Inr ()" by (simp add: validate_config_def env_lines_def)
  have r: "resolve_targets ds_all (sections ?E) = Inr [(''r'', [])]"
    by (simp add: resolve_targets_def ds_all_def env_lines_def Let_def)
  have ne: "[(''r'', [])] \<noteq> ([]::(string \<times> string) list)" by simp
  obtain r4 w4 where e1: "emit_progress_safe (emitter ?E) (started ?E [(''r'', [])] w_empty) = (r4, w4)"
    by (cases "emit_progress_safe (emitter ?E) (started ?E [(''r'', [])] w_empty)") auto
  have "emit_safe (emitter ?E)" by (simp add: env_lines_sel emit_safe_returns)
  from emit_progress_safe_ok [OF this, of "started ?E [(''r'', [])] w_empty"] e1
  have r4: "r4 = Inr ()" by simp
  from index_target_overflow [of 1 w4] obtain w5 where
    it: "index_target ?E ''r'' [] 0 w4
      = (Inl (OverflowError ''Python int too large to convert to SQLite INTEGER''), w5)"
    by blast
  have "fetch ?E ds_all w_empty
      = (Inl (OverflowError ''Python int too large to convert to SQLite INTEGER''), log_event CloseConn w5)"
    unfolding fetch_unfold [OF v r ne]
    by (simp add: e1 r4 it)
  then have f: "fst (fetch ?E ds_all w_empty) = Inl (OverflowError ''Python int too large to convert to SQLite INTEGER'')"
    by simp
  then have "fst (fetch ?E ds_all w_empty) \<noteq> Inl (listing_error ?E (''r'', []))"
    by (simp add: listing_error_def)
  with nok r f show ?thesis by blast
qed

section \<open>Progress\<close>

lemma fetch_setup_failed:
  assumes "(\<exists>e. validate_config ev ds = Inl e) \<or> (\<exists>e. resolve_targets ds (sections ev) = Inl e)
     \<or> resolve_targets ds (sections ev) = Inr []"
  shows "\<exists>e. fetch ev ds w = (Inl e, w)"
  using assms
  by (cases "validate_config ev ds"; cases "resolve_targets ds (sections ev)") (auto simp: fetch_def)

text \<open>
  Claim C6. A run either fails in its setup, touching nothing, or logs the following, in
  this order: no listing and no setter call; the total, set once; the counter set to 0;
  then the counter set to 1, 2, ... up to some \<open>q\<close>, and no other value of the total.
  So the values the counter takes are \<open>0, 1, ..., q\<close>, a sorted list, and the total is
  set exactly once, before the first listing. When the run returns, \<open>q\<close> is the count
  it reports, which is the number of records the listings' lines yield (skipped lines
  yield none), and these records are exactly what the run has committed, in order: the
  store is the store before with all of them upserted.
\<close>

theorem progress_monotone:
  assumes "fetch ev ds w = (r, w')"
  shows "(((\<exists>e. validate_config ev ds = Inl e) \<or> (\<exists>e. resolve_targets ds (sections ev) = Inl e)
            \<or> resolve_targets ds (sections ev) = Inr [])
          \<and> w' = w \<and> (\<exists>e. r = Inl e))
     \<or> (\<exists>ts pre post q. resolve_targets ds (sections ev) = Inr ts
          \<and> trace w' = trace w @ pre
               @ [SetTotalItems (sum_list (map (count_or_zero ev) ts)), SetProcessedItems 0] @ post
          \<and> list_runs pre = [] \<and> total_values pre = [] \<and> processed_values pre = []
          \<and> total_values post = [] \<and> processed_values post = [1..q] \<and> 0 \<le> q
          \<and> total_values (trace w') = total_values (trace w) @ [sum_list (map (count_or_zero ev) ts)]
          \<and> processed_values (trace w') = processed_values (trace w) @ [0..q]
          \<and> sorted [0..q]
          \<and> (\<forall>s. r = Inr s \<longrightarrow> total_indexed s = q \<and> q = int (length (all_records ev ts))
                \<and> committed (trace w') = committed (trace w) @ all_records ev ts
                \<and> int (length (committed (trace w'))) = int (length (committed (trace w))) + q
                \<and> store_of w' = upsert_all (all_records ev ts) (store_of w)))"
proof (cases "(\<exists>e. validate_config ev ds = Inl e) \<or> (\<exists>e. resolve_targets ds (sections ev) = Inl e)
     \<or> resolve_targets ds (sections ev) = Inr []")
  case True
  from fetch_setup_failed [OF True, of w] assms have "w' = w \<and> (\<exists>e. r = Inl e)" by auto
  with True show ?thesis by blast
next
  case False
  then have v: "validate_config ev ds = Inr ()"
    using validate_config_cases [of ev ds] by blast
  from False obtain ts where rt: "resolve_targets ds (sections ev) = Inr ts" and ne: "ts \<noteq> []"
    by (cases "resolve_targets ds (sections ev)") auto
  from fetch_trace [OF v rt ne assms] obtain pre post q where
    t: "trace w' = trace w @ pre
          @ [SetTotalItems (sum_list (map (count_or_zero ev) ts)), SetProcessedItems 0] @ post"
    and p: "list_runs pre = []" "total_values pre = []" "processed_values pre = []"
      "total_values post = []" "0 \<le> q" "processed_values post = [1..q]"
    and s: "\<forall>s. r = Inr s \<longrightarrow> q = total_indexed s \<and> q = int (length (all_records ev ts))
            \<and> list_runs post = map target_name ts"
    by blast
  have z: "0 # [1..q] = [0..q]" using p(5) upto_rec1 [of 0 q] by simp
  have tv: "total_values (trace w') = total_values (trace w) @ [sum_list (map (count_or_zero ev) ts)]"
    unfolding t using p by (simp add: total_values_append)
  have pv: "processed_values (trace w') = processed_values (trace w) @ [0..q]"
    unfolding t using p z by (simp add: processed_values_append del: upto.simps)
  have so: "sorted [0..q]" by (rule sorted_upto)
  have s': "\<forall>s. r = Inr s \<longrightarrow> total_indexed s = q \<and> q = int (length (all_records ev ts))
                \<and> committed (trace w') = committed (trace w) @ all_records ev ts
                \<and> int (length (committed (trace w'))) = int (length (committed (trace w))) + q
                \<and> store_of w' = upsert_all (all_records ev ts) (store_of w)"
  proof (intro allI impI)
    fix s0 assume r: "r = Inr s0"
    from fetch_Inr [OF assms [unfolded r]] rt
    have c: "committed (trace w') = committed (trace w) @ all_records ev ts"
      and st: "store_of w' = upsert_all (all_records ev ts) (store_of w)"
      by auto
    from s r have q: "total_indexed s0 = q" "q = int (length (all_records ev ts))" by auto
    from c q have "int (length (committed (trace w'))) = int (length (committed (trace w))) + q" by simp
    with c st q show "total_indexed s0 = q \<and> q = int (length (all_records ev ts))
                \<and> committed (trace w') = committed (trace w) @ all_records ev ts
                \<and> int (length (committed (trace w'))) = int (length (committed (trace w))) + q
                \<and> store_of w' = upsert_all (all_records ev ts) (store_of w)"
      by blast
  qed
  from rt t p tv pv so s' show ?thesis by blast
qed

text \<open>
  C6 on a listing of three lines, one blank: the counter takes the values 0, 1, 2, the
  total is set once, to the count the size query gave, and the two records counted are the
  two rows of the table.
\<close>

theorem progress_monotone_witness:
  "fst (fetch (env_lines [line_a1, [CHR 0x0A], line_b] 0) ds_all w_empty)
      = Inr \<lparr>total_indexed = 2, remotes = {''r''}\<rparr>
   \<and> processed_values (trace (snd (fetch (env_lines [line_a1, [CHR 0x0A], line_b] 0) ds_all w_empty))) = [0, 1, 2]
   \<and> total_values (trace (snd (fetch (env_lines [line_a1, [CHR 0x0A], line_b] 0) ds_all w_empty))) = [3]
   \<and> committed (trace (snd (fetch (env_lines [line_a1, [CHR 0x0A], line_b] 0) ds_all w_empty))) = [entry_a1, entry_b]
   \<and> db_rows (snd (fetch (env_lines [line_a1, [CHR 0x0A], line_b] 0) ds_all w_empty)) = [(1, entry_a1), (2, entry_b)]"
proof -
  let ?E = "env_lines [line_a1, [CHR 0x0A], line_b] 0"
  have em: "emit_safe (emitter ?E)" by (simp add: env_lines_sel emit_safe_returns)
  have v: "validate_config ?E ds_all = Inr ()" by code_simp
  have rt: "resolve_targets ds_all (sections ?E) = Inr [(''r'', [])]" by code_simp
  have ok: "list_all (target_ok ?E) [(''r'', [])]" by code_simp
  have cl: "list_all (target_clean ?E) [(''r'', [])]" by code_simp
  have recs: "all_records ?E [(''r'', [])] = [entry_a1, entry_b]" by code_simp
  have n: "int (length (all_records ?E [(''r'', [])])) = 2" by (simp add: recs)
  have c: "count_or_zero ?E (''r'', []) = 3" by code_simp
  have up: "upsert_all [entry_a1, entry_b] (store_of w_empty) = ([(1, entry_a1), (2, entry_b)], 2)"
    by code_simp
  from fetch_total [OF em v rt _ ok cl, of w_empty] obtain w' where
    f: "fetch ?E ds_all w_empty = (Inr \<lparr>total_indexed = 2, remotes = {''r''}\<rparr>, w')"
    by (auto simp: n)
  from progress_monotone [OF f] rt obtain q where
    "total_values (trace w') = total_values (trace w_empty) @ [sum_list (map (count_or_zero ?E) [(''r'', [])])]"
    "processed_values (trace w') = processed_values (trace w_empty) @ [0..q]"
    "total_indexed \<lparr>total_indexed = 2, remotes = {''r''}\<rparr> = q"
    "committed (trace w') = committed (trace w_empty) @ all_records ?E [(''r'', [])]"
    "store_of w' = upsert_all (all_records ?E [(''r'', [])]) (store_of w_empty)"
    by auto
  then have "total_values (trace w') = [3]" "processed_values (trace w') = [0, 1, 2]"
    "committed (trace w') = [entry_a1, entry_b]" "store_of w' = ([(1, entry_a1), (2, entry_b)], 2)"
    by (simp_all add: c w_empty_def upto_rec1 recs up [unfolded w_empty_def])
  with f show ?thesis by (simp add: store_of_def)
qed

section \<open>Running twice\<close>

lemma entries_upsert: "map snd (fst (upsert e s)) = replace_entry e (map snd (fst s))"
  by (simp add: upsert_def replace_entry_def filter_map comp_def)

lemma entries_upsert_all: "map snd (fst (upsert_all new s)) = replace_all new (map snd (fst s))"
  unfolding upsert_all_def replace_all_def
  by (induction new arbitrary: s) (simp_all add: entries_upsert)

lemma replace_all_Nil: "replace_all [] es = es"
  by (simp add: replace_all_def)

lemma replace_all_Cons: "replace_all (e # new) es = replace_all new (replace_entry e es)"
  by (simp add: replace_all_def)

lemma replace_all_snoc: "replace_all (new @ [e]) es = replace_entry e (replace_all new es)"
  by (simp add: replace_all_def)

lemma replace_all_split:
  "replace_all new es = filter (\<lambda>x. e_full_path x \<notin> e_full_path ` set new) es @ replace_all new []"
proof (induction new arbitrary: es)
  case Nil
  show ?case by (simp add: replace_all_Nil)
next
  case (Cons e new)
  have a: "replace_all (e # new) es
      = filter (\<lambda>x. e_full_path x \<notin> e_full_path ` set new) (replace_entry e es) @ replace_all new []"
    using Cons [of "replace_entry e es"] by (simp add: replace_all_Cons)
  have b: "replace_all (e # new) []
      = filter (\<lambda>x. e_full_path x \<notin> e_full_path ` set new) [e] @ replace_all new []"
    using Cons [of "replace_entry e []"] by (simp add: replace_all_Cons replace_entry_def)
  have c: "filter (\<lambda>x. e_full_path x \<notin> e_full_path ` set new) (replace_entry e es)
      = filter (\<lambda>x. e_full_path x \<notin> e_full_path ` set (e # new)) es
        @ filter (\<lambda>x. e_full_path x \<notin> e_full_path ` set new) [e]"
    by (simp add: replace_entry_def conj_commute)
  show ?case unfolding a b c by simp
qed

lemma replace_all_paths: "e_full_path ` set (replace_all new []) = e_full_path ` set new"
proof (induction new rule: rev_induct)
  case Nil
  show ?case by (simp add: replace_all_Nil)
next
  case (snoc e new)
  have "e_full_path ` set (replace_entry e (replace_all new []))
      = (e_full_path ` set (replace_all new []) - {e_full_path e}) \<union> {e_full_path e}"
    by (auto simp: replace_entry_def)
  with snoc show ?case by (auto simp: replace_all_snoc)
qed

lemma replace_all_idem: "replace_all new (replace_all new es) = replace_all new es"
proof -
  have "filter (\<lambda>x. e_full_path x \<notin> e_full_path ` set new) (replace_all new []) = []"
    using replace_all_paths [of new] by (auto simp: filter_empty_conv)
  then have "filter (\<lambda>x. e_full_path x \<notin> e_full_path ` set new)
        (filter (\<lambda>x. e_full_path x \<notin> e_full_path ` set new) es @ replace_all new [])
      = filter (\<lambda>x. e_full_path x \<notin> e_full_path ` set new) es"
    by simp
  then show ?thesis
    using replace_all_split [of new "replace_all new es"] replace_all_split [of new es] by simp
qed

lemma replace_entry_distinct:
  assumes "distinct (map e_full_path es)"
  shows "distinct (map e_full_path (replace_entry e es))"
  using assms by (auto simp: replace_entry_def distinct_map_filter)

lemma replace_all_distinct:
  assumes "distinct (map e_full_path es)"
  shows "distinct (map e_full_path (replace_all new es))"
  using assms
  by (induction new arbitrary: es) (simp_all add: replace_all_Nil replace_all_Cons replace_entry_distinct)

lemma upsert_last_write_wins:
  "filter (\<lambda>r. e_full_path (snd r) = e_full_path e) (fst (upsert e s)) = [(Suc (snd s), e)]"
  by (simp add: upsert_def filter_empty_conv)

lemma entries_of_store: "map snd (db_rows w) = map snd (fst (store_of w))"
  by (simp add: store_of_def)

lemma flush_batch_twice:
  "fst (flush_batch batch (snd (flush_batch batch w))) = fst (flush_batch batch w)
   \<and> map snd (db_rows (snd (flush_batch batch (snd (flush_batch batch w)))))
       = map snd (db_rows (snd (flush_batch batch w)))"
proof (cases "list_all storable batch")
  case True
  from flush_batch_storable [OF True, of w] obtain w1 where f1: "flush_batch batch w = (Inr (), w1)" by blast
  from flush_batch_storable [OF True, of w1] obtain w2 where f2: "flush_batch batch w1 = (Inr (), w2)" by blast
  from flush_batch_Inr [OF f1] have s1: "store_of w1 = upsert_all batch (store_of w)" by blast
  from flush_batch_Inr [OF f2] have s2: "store_of w2 = upsert_all batch (store_of w1)" by blast
  have "map snd (db_rows w2) = map snd (db_rows w1)"
    by (simp only: entries_of_store s2 s1 entries_upsert_all replace_all_idem)
  with f1 f2 show ?thesis by simp
next
  case False
  then show ?thesis by (simp add: flush_batch_overflow)
qed

text \<open>
  Claim C3. After a run that returns, a second run on the same listings (the emitter
  staying inside \<^verbatim>\<open>Exception\<close>) returns the same summary and leaves the table with the
  same records in the same order, hence the same number of rows; full paths stay pairwise
  distinct if they were so before the first run. Flushing a batch twice ends as flushing it
  once ends and leaves the records that flushing it once leaves, and after
  \<open>insert_or_replace\<close> of a storable record the table has exactly one row with the
  record's full path, the record just written; a record that is not storable is refused.
  The rows' ids are new on every write; they are the table's own and not part of a catalog
  record.
\<close>

theorem idempotent_upsert:
  assumes "fetch ev ds w = (Inr s, w1)" "emit_safe (emitter ev)"
  shows "\<exists>w2. fetch ev ds w1 = (Inr s, w2)
     \<and> map snd (db_rows w2) = map snd (db_rows w1)
     \<and> length (db_rows w2) = length (db_rows w1)
     \<and> (distinct (map e_full_path (map snd (db_rows w)))
          \<longrightarrow> distinct (map e_full_path (map snd (db_rows w1)))
            \<and> distinct (map e_full_path (map snd (db_rows w2))))
     \<and> fst (flush_batch batch (snd (flush_batch batch w))) = fst (flush_batch batch w)
     \<and> map snd (db_rows (snd (flush_batch batch (snd (flush_batch batch w)))))
          = map snd (db_rows (snd (flush_batch batch w)))
     \<and> (storable e \<longrightarrow> (\<exists>w'. insert_or_replace e w = Inr w'
          \<and> filter (\<lambda>r. e_full_path (snd r) = e_full_path e) (db_rows w') = [(Suc (db_seq w), e)]))
     \<and> (\<not> storable e \<longrightarrow>
          insert_or_replace e w = Inl (OverflowError ''Python int too large to convert to SQLite INTEGER''))"
proof -
  from fetch_Inr [OF assms(1)] obtain ts where
    v: "validate_config ev ds = Inr ()" and rt: "resolve_targets ds (sections ev) = Inr ts"
    and ne: "ts \<noteq> []" and ok: "list_all (target_ok ev) ts" and cl: "list_all (target_clean ev) ts"
    and s: "s = \<lparr>total_indexed = int (length (all_records ev ts)), remotes = set (map fst ts)\<rparr>"
    and st1: "store_of w1 = upsert_all (all_records ev ts) (store_of w)"
    by blast
  from fetch_total [OF assms(2) v rt ne ok cl, of w1] obtain w2 where
    f2: "fetch ev ds w1 = (Inr s, w2)" unfolding s by blast
  from fetch_Inr [OF f2] rt have st2: "store_of w2 = upsert_all (all_records ev ts) (store_of w1)"
    by auto
  have e1: "map snd (db_rows w1) = replace_all (all_records ev ts) (map snd (db_rows w))"
    by (simp only: entries_of_store st1 entries_upsert_all)
  have e2: "map snd (db_rows w2) = replace_all (all_records ev ts) (map snd (db_rows w1))"
    by (simp only: entries_of_store st2 entries_upsert_all)
  have same: "map snd (db_rows w2) = map snd (db_rows w1)"
    unfolding e2 e1 by (rule replace_all_idem)
  then have "length (map snd (db_rows w2)) = length (map snd (db_rows w1))" by simp
  then have len: "length (db_rows w2) = length (db_rows w1)" by simp
  have d: "distinct (map e_full_path (map snd (db_rows w)))
          \<longrightarrow> distinct (map e_full_path (map snd (db_rows w1)))
            \<and> distinct (map e_full_path (map snd (db_rows w2)))"
    unfolding same unfolding e1 using replace_all_distinct by blast
  note fl = flush_batch_twice [of batch w]
  have lw: "storable e \<longrightarrow> (\<exists>w'. insert_or_replace e w = Inr w'
          \<and> filter (\<lambda>r. e_full_path (snd r) = e_full_path e) (db_rows w') = [(Suc (db_seq w), e)])"
  proof
    assume "storable e"
    from insert_or_replace_storable [OF this, of w] obtain w' where i: "insert_or_replace e w = Inr w'" by blast
    from insert_or_replace_Inr [OF i] have "store_of w' = upsert e (store_of w)" by blast
    then have "db_rows w' = fst (upsert e (store_of w))" by (metis fst_conv store_of_def)
    with upsert_last_write_wins [of e "store_of w"]
    have "filter (\<lambda>r. e_full_path (snd r) = e_full_path e) (db_rows w') = [(Suc (db_seq w), e)]"
      by (simp add: store_of_def)
    with i show "\<exists>w'. insert_or_replace e w = Inr w'
          \<and> filter (\<lambda>r. e_full_path (snd r) = e_full_path e) (db_rows w') = [(Suc (db_seq w), e)]"
      by blast
  qed
  have ov: "\<not> storable e \<longrightarrow>
          insert_or_replace e w = Inl (OverflowError ''Python int too large to convert to SQLite INTEGER'')"
    by (simp add: insert_or_replace_def storable_def)
  from f2 same len d fl lw ov show ?thesis by blast
qed


text \<open>
  C3 on two lines: both runs report two records, and the second run's rows carry the same
  records under the ids 3 and 4.
\<close>

theorem idempotent_upsert_witness:
  "fst (fetch (env_lines [line_a1, line_b] 0) ds_all w_empty) = Inr \<lparr>total_indexed = 2, remotes = {''r''}\<rparr>
   \<and> db_rows (snd (fetch (env_lines [line_a1, line_b] 0) ds_all w_empty)) = [(1, entry_a1), (2, entry_b)]
   \<and> fst (fetch (env_lines [line_a1, line_b] 0) ds_all (snd (fetch (env_lines [line_a1, line_b] 0) ds_all w_empty)))
       = Inr \<lparr>total_indexed = 2, remotes = {''r''}\<rparr>
   \<and> db_rows (snd (fetch (env_lines [line_a1, line_b] 0) ds_all (snd (fetch (env_lines [line_a1, line_b] 0) ds_all w_empty))))
       = [(3, entry_a1), (4, entry_b)]"
proof -
  let ?E = "env_lines [line_a1, line_b] 0"
  have em: "emit_safe (emitter ?E)" by (simp add: env_lines_sel emit_safe_returns)
  have v: "validate_config ?E ds_all = Inr ()" by code_simp
  have rt: "resolve_targets ds_all (sections ?E) = Inr [(''r'', [])]" by code_simp
  have ok: "list_all (target_ok ?E) [(''r'', [])]" by code_simp
  have cl: "list_all (target_clean ?E) [(''r'', [])]" by code_simp
  have recs: "all_records ?E [(''r'', [])] = [entry_a1, entry_b]" by code_simp
  have u1: "upsert_all [entry_a1, entry_b] (store_of w_empty) = ([(1, entry_a1), (2, entry_b)], 2)"
    by code_simp
  have u2: "upsert_all [entry_a1, entry_b] ([(1, entry_a1), (2, entry_b)], 2) = ([(3, entry_a1), (4, entry_b)], 4)"
    by code_simp
  from fetch_total [OF em v rt _ ok cl, of w_empty] obtain w1 where
    f1: "fetch ?E ds_all w_empty = (Inr \<lparr>total_indexed = 2, remotes = {''r''}\<rparr>, w1)"
    by (auto simp: recs)
  from fetch_Inr [OF f1] rt have s1: "store_of w1 = ([(1, entry_a1), (2, entry_b)], 2)"
    by (auto simp: recs u1)
  from idempotent_upsert [OF f1 em] obtain w2 where
    f2: "fetch ?E ds_all w1 = (Inr \<lparr>total_indexed = 2, remotes = {''r''}\<rparr>, w2)"
    and same: "map snd (db_rows w2) = map snd (db_rows w1)"
    by blast
  from fetch_Inr [OF f2] rt have "store_of w2 = upsert_all (all_records ?E [(''r'', [])]) (store_of w1)"
    by auto
  then have s2: "store_of w2 = ([(3, entry_a1), (4, entry_b)], 4)"
    by (simp only: recs s1 u2)
  from s1 s2 have "db_rows w1 = [(1, entry_a1), (2, entry_b)]" "db_rows w2 = [(3, entry_a1), (4, entry_b)]"
    by (simp_all add: store_of_def)
  with f1 f2 show ?thesis by simp
qed

section \<open>Emission failures\<close>

lemma without_emits_append: "without_emits (xs @ ys) = without_emits xs @ without_emits ys"
  by (induction xs rule: without_emits.induct) auto

lemma same_but_emits_refl: "same_but_emits w w"
  by (simp add: same_but_emits_def)

lemma same_but_emits_log:
  "same_but_emits w1 w2 \<Longrightarrow> same_but_emits (log_event e w1) (log_event e w2)"
  by (simp add: same_but_emits_def store_of_def log_event_def without_emits_append)

lemma same_but_emits_flush:
  assumes "same_but_emits w1 w2"
  shows "fst (flush_batch b w1) = fst (flush_batch b w2)
     \<and> same_but_emits (snd (flush_batch b w1)) (snd (flush_batch b w2))"
proof (cases "list_all storable b")
  case True
  from flush_batch_storable [OF True, of w1] obtain v1 where f1: "flush_batch b w1 = (Inr (), v1)" by blast
  from flush_batch_storable [OF True, of w2] obtain v2 where f2: "flush_batch b w2 = (Inr (), v2)" by blast
  from flush_batch_Inr [OF f1] flush_batch_Inr [OF f2] assms have "same_but_emits v1 v2"
    by (simp add: same_but_emits_def without_emits_append)
  with f1 f2 show ?thesis by simp
next
  case False
  with assms show ?thesis by (simp add: flush_batch_overflow)
qed

lemma same_but_emits_emit:
  assumes "emit_safe em1" "emit_safe em2" "same_but_emits w1 w2"
    "emit_progress_safe em1 w1 = (r1, v1)" "emit_progress_safe em2 w2 = (r2, v2)"
  shows "r1 = Inr () \<and> r2 = Inr () \<and> same_but_emits v1 v2"
proof -
  from emit_progress_safe_ok [OF assms(1), of w1] assms(4) have r1: "r1 = Inr ()" by simp
  from emit_progress_safe_ok [OF assms(2), of w2] assms(5) have r2: "r2 = Inr ()" by simp
  from emit_progress_safe_cases [OF assms(4)] emit_progress_safe_cases [OF assms(5)] assms(3)
  have "same_but_emits v1 v2"
    by (simp add: same_but_emits_def without_emits_append)
  with r1 r2 show ?thesis by simp
qed

lemma same_but_emits_update:
  assumes "emit_safe em1" "emit_safe em2" "same_but_emits w1 w2"
    "update_progress em1 p w1 = (r1, v1)" "update_progress em2 p w2 = (r2, v2)"
  shows "r1 = Inr () \<and> r2 = Inr () \<and> same_but_emits v1 v2"
proof -
  have s: "same_but_emits (log_event SetProcessingTime (log_event (SetProcessedItems p) w1))
      (log_event SetProcessingTime (log_event (SetProcessedItems p) w2))"
    using assms(3) by (intro same_but_emits_log)
  from assms(4) have a: "emit_progress_safe em1 (log_event SetProcessingTime (log_event (SetProcessedItems p) w1)) = (r1, v1)"
    by (simp add: update_progress_def)
  from assms(5) have b: "emit_progress_safe em2 (log_event SetProcessingTime (log_event (SetProcessedItems p) w2)) = (r2, v2)"
    by (simp add: update_progress_def)
  from same_but_emits_emit [OF assms(1,2) s a b] show ?thesis .
qed

lemma same_but_emits_loop:
  assumes "emit_safe em1" "emit_safe em2"
  shows "same_but_emits w1 w2 \<Longrightarrow>
     fst (index_loop em1 dn cd ls batch p w1) = fst (index_loop em2 dn cd ls batch p w2)
     \<and> same_but_emits (snd (index_loop em1 dn cd ls batch p w1)) (snd (index_loop em2 dn cd ls batch p w2))"
proof (induction ls arbitrary: batch p w1 w2)
  case Nil
  then show ?case by simp
next
  case (Cons l ls)
  show ?case
  proof (cases "parse_line dn cd l")
    case (Inl err)
    with Cons.prems show ?thesis by simp
  next
    case (Inr r0)
    show ?thesis
    proof (cases r0)
      case None
      with Inr have pl: "parse_line dn cd l = Inr None" by simp
      with Cons show ?thesis by (simp only: index_loop_None)
    next
      case (Some e)
      with Inr have pl: "parse_line dn cd l = Inr (Some e)" by simp
      let ?f1 = "if length (batch @ [e]) \<ge> batch_size then flush_batch (batch @ [e]) w1 else (Inr (), w1)"
      let ?f2 = "if length (batch @ [e]) \<ge> batch_size then flush_batch (batch @ [e]) w2 else (Inr (), w2)"
      obtain rf a1 where f1: "?f1 = (rf, a1)" by (cases ?f1) auto
      obtain rg a2 where f2: "?f2 = (rg, a2)" by (cases ?f2) auto
      have "fst ?f1 = fst ?f2 \<and> same_but_emits (snd ?f1) (snd ?f2)"
        using Cons.prems same_but_emits_flush [OF Cons.prems, of "batch @ [e]"] by simp
      with f1 f2 have rfg: "rf = rg" and s: "same_but_emits a1 a2" by simp_all
      show ?thesis
      proof (cases rg)
        case (Inl err)
        with f1 f2 rfg s show ?thesis
          by (simp add: index_loop_Some [OF pl] del: index_loop.simps)
      next
        case rg: (Inr u0)
        obtain r1 v1 where u1: "update_progress em1 (p + 1) a1 = (r1, v1)"
          by (cases "update_progress em1 (p + 1) a1") auto
        obtain r2 v2 where u2: "update_progress em2 (p + 1) a2 = (r2, v2)"
          by (cases "update_progress em2 (p + 1) a2") auto
        from same_but_emits_update [OF assms s u1 u2]
        have r: "r1 = Inr ()" "r2 = Inr ()" and v: "same_but_emits v1 v2" by simp_all
        from Cons.IH [OF v] f1 f2 rfg rg u1 u2 r show ?thesis
          by (simp add: index_loop_Some [OF pl] del: index_loop.simps)
      qed
    qed
  qed
qed

lemma same_but_emits_target:
  assumes "emit_safe (emitter ev1)" "emit_safe (emitter ev2)" "lsf_run ev1 = lsf_run ev2"
    "same_but_emits w1 w2"
  shows "fst (index_target ev1 dn dp p w1) = fst (index_target ev2 dn dp p w2)
     \<and> same_but_emits (snd (index_target ev1 dn dp p w1)) (snd (index_target ev2 dn dp p w2))"
proof -
  let ?t = "target_of dn (clean_dir_of dp)"
  let ?ls = "lsf_lines (lsf_run ev2 ?t)"
  have s0: "same_but_emits (log_event (ListRun ?t) w1) (log_event (ListRun ?t) w2)"
    using assms(4) by (rule same_but_emits_log)
  obtain r1 v1 where l1: "index_loop (emitter ev1) dn (clean_dir_of dp) ?ls [] p (log_event (ListRun ?t) w1) = (r1, v1)"
    by (cases "index_loop (emitter ev1) dn (clean_dir_of dp) ?ls [] p (log_event (ListRun ?t) w1)") auto
  obtain r2 v2 where l2: "index_loop (emitter ev2) dn (clean_dir_of dp) ?ls [] p (log_event (ListRun ?t) w2) = (r2, v2)"
    by (cases "index_loop (emitter ev2) dn (clean_dir_of dp) ?ls [] p (log_event (ListRun ?t) w2)") auto
  from same_but_emits_loop [OF assms(1,2) s0, of dn "clean_dir_of dp" ?ls "[]" p] l1 l2
  have r: "r1 = r2" and v: "same_but_emits v1 v2" by simp_all
  show ?thesis
  proof (cases r2)
    case (Inl err)
    with l1 l2 r v show ?thesis by (simp add: index_target_def Let_def assms(3))
  next
    case (Inr bp)
    obtain b p1 where bp: "bp = (b, p1)" by (cases bp)
    obtain rf a1 where f1: "flush_batch b v1 = (rf, a1)" by (cases "flush_batch b v1") auto
    obtain rg a2 where f2: "flush_batch b v2 = (rg, a2)" by (cases "flush_batch b v2") auto
    from same_but_emits_flush [OF v, of b] f1 f2 have rfg: "rf = rg" and sa: "same_but_emits a1 a2"
      by simp_all
    show ?thesis
      using l1 l2 r v Inr bp f1 f2 rfg sa
      by (cases rg) (simp_all add: index_target_def Let_def assms(3))
  qed
qed

lemma same_but_emits_all:
  assumes "emit_safe (emitter ev1)" "emit_safe (emitter ev2)" "lsf_run ev1 = lsf_run ev2"
  shows "same_but_emits w1 w2 \<Longrightarrow>
     fst (index_all ev1 ts p w1) = fst (index_all ev2 ts p w2)
     \<and> same_but_emits (snd (index_all ev1 ts p w1)) (snd (index_all ev2 ts p w2))"
proof (induction ts arbitrary: p w1 w2)
  case Nil
  then show ?case by simp
next
  case (Cons t ts)
  obtain r1 v1 where i1: "index_target ev1 (fst t) (snd t) p w1 = (r1, v1)"
    by (cases "index_target ev1 (fst t) (snd t) p w1") auto
  obtain r2 v2 where i2: "index_target ev2 (fst t) (snd t) p w2 = (r2, v2)"
    by (cases "index_target ev2 (fst t) (snd t) p w2") auto
  from same_but_emits_target [OF assms Cons.prems, of "fst t" "snd t" p] i1 i2
  have r: "r1 = r2" and v: "same_but_emits v1 v2" by simp_all
  show ?case
  proof (cases r2)
    case (Inl err)
    with i1 i2 r v show ?thesis by (simp add: index_all_Cons)
  next
    case (Inr p1)
    with i1 i2 r Cons.IH [OF v, of p1] show ?thesis by (simp add: index_all_Cons)
  qed
qed

lemma count_or_zero_emitter: "count_or_zero (ev\<lparr>emitter := em\<rparr>) = count_or_zero ev"
  by (rule ext) (simp add: count_or_zero_def count_remote_items_def)

lemma quiet_env:
  "validate_config (ev\<lparr>emitter := em\<rparr>) ds = validate_config ev ds"
  "sections (ev\<lparr>emitter := em\<rparr>) = sections ev"
  "lsf_run (ev\<lparr>emitter := em\<rparr>) = lsf_run ev"
  "emitter (ev\<lparr>emitter := em\<rparr>) = em"
  "started (ev\<lparr>emitter := em\<rparr>) ts w = started ev ts w"
  by (simp_all add: validate_config_def started_def count_or_zero_emitter)

lemma same_but_emits_fetch:
  assumes "emit_safe (emitter ev)" "emit_safe em"
  shows "fst (fetch ev ds w) = fst (fetch (ev\<lparr>emitter := em\<rparr>) ds w)
     \<and> same_but_emits (snd (fetch ev ds w)) (snd (fetch (ev\<lparr>emitter := em\<rparr>) ds w))"
proof (cases "(\<exists>e. validate_config ev ds = Inl e) \<or> (\<exists>e. resolve_targets ds (sections ev) = Inl e)
     \<or> resolve_targets ds (sections ev) = Inr []")
  case True
  then show ?thesis
    by (cases "validate_config ev ds"; cases "resolve_targets ds (sections ev)")
       (auto simp: fetch_def quiet_env same_but_emits_refl)
next
  case False
  let ?ev2 = "ev\<lparr>emitter := em\<rparr>"
  from False have v: "validate_config ev ds = Inr ()"
    using validate_config_cases [of ev ds] by blast
  from False obtain ts where rt: "resolve_targets ds (sections ev) = Inr ts" and ne: "ts \<noteq> []"
    by (cases "resolve_targets ds (sections ev)") auto
  have v2: "validate_config ?ev2 ds = Inr ()" and rt2: "resolve_targets ds (sections ?ev2) = Inr ts"
    using v rt by (simp_all add: quiet_env)
  have e2: "emit_safe (emitter ?ev2)" using assms(2) by (simp add: quiet_env)
  have lr: "lsf_run ev = lsf_run ?ev2" by (simp add: quiet_env)
  obtain r4 w4 where a1: "emit_progress_safe (emitter ev) (started ev ts w) = (r4, w4)"
    by (cases "emit_progress_safe (emitter ev) (started ev ts w)") auto
  obtain q4 x4 where b1: "emit_progress_safe (emitter ?ev2) (started ev ts w) = (q4, x4)"
    by (cases "emit_progress_safe (emitter ?ev2) (started ev ts w)") auto
  from same_but_emits_emit [OF assms(1) e2 same_but_emits_refl a1 b1]
  have r4: "r4 = Inr ()" "q4 = Inr ()" and s4: "same_but_emits w4 x4" by simp_all
  obtain r5 w5 where a2: "index_all ev ts 0 w4 = (r5, w5)" by (cases "index_all ev ts 0 w4") auto
  obtain q5 x5 where b2: "index_all ?ev2 ts 0 x4 = (q5, x5)" by (cases "index_all ?ev2 ts 0 x4") auto
  from same_but_emits_all [OF assms(1) e2 lr s4, of ts 0] a2 b2
  have r5: "r5 = q5" and s5: "same_but_emits w5 x5" by simp_all
  show ?thesis
  proof (cases q5)
    case (Inl err)
    with a1 b1 r4 a2 b2 r5 s5 show ?thesis
      unfolding fetch_unfold [OF v rt ne] fetch_unfold [OF v2 rt2 ne]
      by (simp add: quiet_env same_but_emits_log)
  next
    case (Inr p)
    let ?c1 = "log_event SetFetchCompleted (log_event CloseConn w5)"
    let ?c2 = "log_event SetFetchCompleted (log_event CloseConn x5)"
    have sc: "same_but_emits ?c1 ?c2" using s5 by (intro same_but_emits_log)
    obtain r7 w7 where a3: "emit_progress_safe (emitter ev) ?c1 = (r7, w7)"
      by (cases "emit_progress_safe (emitter ev) ?c1") auto
    obtain q7 x7 where b3: "emit_progress_safe (emitter ?ev2) ?c2 = (q7, x7)"
      by (cases "emit_progress_safe (emitter ?ev2) ?c2") auto
    from same_but_emits_emit [OF assms(1) e2 sc a3 b3]
    have r7: "r7 = Inr ()" "q7 = Inr ()" and s7: "same_but_emits w7 x7" by simp_all
    from Inr a1 b1 r4 a2 b2 r5 a3 b3 r7 s7 show ?thesis
      unfolding fetch_unfold [OF v rt ne] fetch_unfold [OF v2 rt2 ne]
      by (simp add: quiet_env)
  qed
qed

lemma parse_line_Inl: "parse_line dn cd l = Inl err \<Longrightarrow> \<exists>m. err = ValueError m"
  by (auto simp: parse_line_def parse_size_def py_int_def Let_def split: if_splits sum.splits)

lemma index_loop_safe_error:
  assumes "emit_safe em"
  shows "index_loop em dn cd ls batch p w = (Inl err, w') \<Longrightarrow> err \<noteq> BaseExceptionRaised msg"
proof (induction ls arbitrary: batch p w)
  case Nil
  then show ?case by simp
next
  case (Cons l ls)
  show ?case
  proof (cases "parse_line dn cd l")
    case (Inl e1)
    with Cons.prems have "err = e1" by simp
    with parse_line_Inl [OF Inl] show ?thesis by auto
  next
    case (Inr r0)
    show ?thesis
    proof (cases r0)
      case None
      with Cons Inr show ?thesis by simp
    next
      case (Some e)
      with Inr have pl: "parse_line dn cd l = Inr (Some e)" by simp
      obtain rf w1 where f: "(if length (batch @ [e]) \<ge> batch_size then flush_batch (batch @ [e]) w else (Inr (), w)) = (rf, w1)"
        by (cases "if length (batch @ [e]) \<ge> batch_size then flush_batch (batch @ [e]) w else (Inr (), w)") auto
      show ?thesis
      proof (cases rf)
        case (Inl e1)
        with Cons.prems f have e: "err = e1"
          by (simp add: index_loop_Some [OF pl] del: index_loop.simps)
        from f Inl have "flush_batch (batch @ [e]) w = (Inl e1, w1)" by (auto split: if_splits)
        from flush_batch_Inl [OF this] e show ?thesis by simp
      next
        case rf: (Inr u0)
        obtain r1 w2 where u: "update_progress em (p + 1) w1 = (r1, w2)"
          by (cases "update_progress em (p + 1) w1") auto
        with update_progress_ok [OF assms, of "p + 1" w1] have "r1 = Inr ()" by simp
        with Cons.prems f rf u have "index_loop em dn cd ls
            (if length (batch @ [e]) \<ge> batch_size then [] else batch @ [e]) (p + 1) w2 = (Inl err, w')"
          by (simp add: index_loop_Some [OF pl] del: index_loop.simps)
        from Cons.IH [OF this] show ?thesis .
      qed
    qed
  qed
qed

lemma index_target_safe_error:
  assumes "emit_safe (emitter ev)" "index_target ev dn dp p w = (Inl err, w')"
  shows "err \<noteq> BaseExceptionRaised msg"
  using assms(2) index_loop_safe_error [OF assms(1)]
  unfolding index_target_def Let_def
  by (auto split: prod.splits sum.splits if_splits dest: flush_batch_Inl)

lemma index_all_safe_error:
  assumes "emit_safe (emitter ev)"
  shows "index_all ev ts p w = (Inl err, w') \<Longrightarrow> err \<noteq> BaseExceptionRaised msg"
proof (induction ts arbitrary: p w)
  case Nil
  then show ?case by simp
next
  case (Cons t ts)
  obtain r1 w1 where it: "index_target ev (fst t) (snd t) p w = (r1, w1)"
    by (cases "index_target ev (fst t) (snd t) p w") auto
  show ?case
  proof (cases r1)
    case (Inl e1)
    with Cons.prems it have "err = e1" by (simp add: index_all_Cons)
    with it Inl index_target_safe_error [OF assms] show ?thesis by blast
  next
    case (Inr p1)
    with Cons.prems it have "index_all ev ts p1 w1 = (Inl err, w')" by (simp add: index_all_Cons)
    from Cons.IH [OF this] show ?thesis .
  qed
qed

lemma fetch_safe_not_base:
  assumes "emit_safe (emitter ev)"
  shows "fst (fetch ev ds w) \<noteq> Inl (BaseExceptionRaised msg)"
proof (cases "(\<exists>e. validate_config ev ds = Inl e) \<or> (\<exists>e. resolve_targets ds (sections ev) = Inl e)
     \<or> resolve_targets ds (sections ev) = Inr []")
  case True
  then show ?thesis
    by (cases "validate_config ev ds"; cases "resolve_targets ds (sections ev)")
       (auto simp: fetch_def validate_config_def resolve_targets_def Let_def split: if_splits)
next
  case False
  from False have v: "validate_config ev ds = Inr ()"
    using validate_config_cases [of ev ds] by blast
  from False obtain ts where rt: "resolve_targets ds (sections ev) = Inr ts" and ne: "ts \<noteq> []"
    by (cases "resolve_targets ds (sections ev)") auto
  obtain r4 w4 where a1: "emit_progress_safe (emitter ev) (started ev ts w) = (r4, w4)"
    by (cases "emit_progress_safe (emitter ev) (started ev ts w)") auto
  with emit_progress_safe_ok [OF assms, of "started ev ts w"] have r4: "r4 = Inr ()" by simp
  obtain r5 w5 where a2: "index_all ev ts 0 w4 = (r5, w5)"
    by (cases "index_all ev ts 0 w4") auto
  show ?thesis
  proof (cases r5)
    case (Inr p)
    obtain r7 w7 where a3: "emit_progress_safe (emitter ev) (log_event SetFetchCompleted (log_event CloseConn w5)) = (r7, w7)"
      by (cases "emit_progress_safe (emitter ev) (log_event SetFetchCompleted (log_event CloseConn w5))") auto
    with emit_progress_safe_ok [OF assms, of "log_event SetFetchCompleted (log_event CloseConn w5)"]
    have r7: "r7 = Inr ()" by simp
    show ?thesis
      unfolding fetch_unfold [OF v rt ne] by (simp add: a1 r4 a2 Inr a3 r7)
  next
    case (Inl e1)
    with index_all_safe_error [OF assms, of ts 0 w4 e1 w5 msg] a2 have "e1 \<noteq> BaseExceptionRaised msg"
      by simp
    then show ?thesis
      unfolding fetch_unfold [OF v rt ne] by (simp add: a1 r4 a2 Inl)
  qed
qed

text \<open>
  Claim C9, as amended. With an emitter that never raises outside \<^verbatim>\<open>Exception\<close>
  (it may be absent, return, or raise any instance of \<^verbatim>\<open>Exception\<close> at any call), no
  emission fails the caller, and the run gives the result, the store and, emissions
  apart, the trace that it gives with an emitter that always returns; in particular its
  result is never an exception of the emitter's.
\<close>

theorem emission_failures_discarded:
  assumes "emit_safe (emitter ev)"
  shows "fst (emit_progress_safe (emitter ev) w) = Inr ()
     \<and> fst (fetch ev ds w) = fst (fetch (ev\<lparr>emitter := (\<lambda>n. EmitReturns)\<rparr>) ds w)
     \<and> store_of (snd (fetch ev ds w)) = store_of (snd (fetch (ev\<lparr>emitter := (\<lambda>n. EmitReturns)\<rparr>) ds w))
     \<and> without_emits (trace (snd (fetch ev ds w)))
         = without_emits (trace (snd (fetch (ev\<lparr>emitter := (\<lambda>n. EmitReturns)\<rparr>) ds w)))
     \<and> (\<forall>msg. fst (fetch ev ds w) \<noteq> Inl (BaseExceptionRaised msg))"
proof -
  have 1: "fst (emit_progress_safe (emitter ev) w) = Inr ()"
    by (rule emit_progress_safe_ok [OF assms])
  from same_but_emits_fetch [OF assms emit_safe_returns, of ds w]
  have 2: "fst (fetch ev ds w) = fst (fetch (ev\<lparr>emitter := (\<lambda>n. EmitReturns)\<rparr>) ds w)"
    and 3: "store_of (snd (fetch ev ds w)) = store_of (snd (fetch (ev\<lparr>emitter := (\<lambda>n. EmitReturns)\<rparr>) ds w))"
    and 4: "without_emits (trace (snd (fetch ev ds w)))
         = without_emits (trace (snd (fetch (ev\<lparr>emitter := (\<lambda>n. EmitReturns)\<rparr>) ds w)))"
    by (simp_all add: same_but_emits_def)
  have 5: "\<forall>msg. fst (fetch ev ds w) \<noteq> Inl (BaseExceptionRaised msg)"
    using fetch_safe_not_base [OF assms] by blast
  from 1 2 3 4 5 show ?thesis by blast
qed

text \<open>C9 under an emitter that raises at every call: the run returns and both rows are written.\<close>

theorem emission_failures_discarded_witness:
  "fst (emit_progress_safe (emitter env_noisy) w_empty) = Inr ()
   \<and> fst (fetch env_noisy ds_all w_empty) = Inr \<lparr>total_indexed = 2, remotes = {''r''}\<rparr>
   \<and> db_rows (snd (fetch env_noisy ds_all w_empty)) = [(1, entry_a1), (2, entry_b)]"
proof -
  let ?E = "env_lines [line_a1, line_b] 0"
  have em: "emit_safe (emitter env_noisy)" by (simp add: env_noisy_def emit_safe_def)
  have q: "env_noisy\<lparr>emitter := (\<lambda>n. EmitReturns)\<rparr> = ?E"
    by (simp add: env_noisy_def env_lines_def)
  have emq: "emit_safe (emitter ?E)" by (simp add: env_lines_sel emit_safe_returns)
  have v: "validate_config ?E ds_all = Inr ()" by code_simp
  have rt: "resolve_targets ds_all (sections ?E) = Inr [(''r'', [])]" by code_simp
  have ok: "list_all (target_ok ?E) [(''r'', [])]" by code_simp
  have cl: "list_all (target_clean ?E) [(''r'', [])]" by code_simp
  have recs: "all_records ?E [(''r'', [])] = [entry_a1, entry_b]" by code_simp
  have u1: "upsert_all [entry_a1, entry_b] (store_of w_empty) = ([(1, entry_a1), (2, entry_b)], 2)"
    by code_simp
  from fetch_total [OF emq v rt _ ok cl, of w_empty] obtain w1 where
    f1: "fetch ?E ds_all w_empty = (Inr \<lparr>total_indexed = 2, remotes = {''r''}\<rparr>, w1)"
    by (auto simp: recs)
  from fetch_Inr [OF f1] rt have "store_of w1 = upsert_all (all_records ?E [(''r'', [])]) (store_of w_empty)"
    by auto
  then have s1: "store_of w1 = ([(1, entry_a1), (2, entry_b)], 2)"
    by (simp only: recs u1)
  note T = emission_failures_discarded [OF em, of w_empty ds_all, unfolded q]
  from T f1 have a: "fst (fetch env_noisy ds_all w_empty) = Inr \<lparr>total_indexed = 2, remotes = {''r''}\<rparr>"
    by simp
  from T f1 s1 have "store_of (snd (fetch env_noisy ds_all w_empty)) = ([(1, entry_a1), (2, entry_b)], 2)"
    by simp
  then have b: "db_rows (snd (fetch env_noisy ds_all w_empty)) = [(1, entry_a1), (2, entry_b)]"
    by (simp add: store_of_def)
  from T a b show ?thesis by blast
qed

text \<open>
  C9 as stated fails for an exception outside \<^verbatim>\<open>Exception\<close>: raised by the first
  emission, it leaves \<open>emit_progress_safe\<close> and the run, and nothing is ingested.
\<close>

theorem emission_failures_discarded_counterexample:
  "fst (emit_progress_safe (emitter env_interrupt) w_empty) = Inl (BaseExceptionRaised ''KeyboardInterrupt'')
   \<and> fst (fetch env_interrupt ds_all w_empty) = Inl (BaseExceptionRaised ''KeyboardInterrupt'')
   \<and> db_rows (snd (fetch env_interrupt ds_all w_empty)) = []"
proof -
  have v: "validate_config env_interrupt ds_all = Inr ()" by code_simp
  have rt: "resolve_targets ds_all (sections env_interrupt) = Inr [(''r'', [])]" by code_simp
  have ne: "[(''r'', [])] \<noteq> ([]::(string \<times> string) list)" by simp
  have e: "emitter env_interrupt = (\<lambda>n. EmitRaisesBaseException ''KeyboardInterrupt'')"
    by (simp add: env_interrupt_def)
  have 1: "fst (emit_progress_safe (emitter env_interrupt) w_empty) = Inl (BaseExceptionRaised ''KeyboardInterrupt'')"
    by (simp add: e emit_progress_safe_def Let_def)
  have 2: "fetch env_interrupt ds_all w_empty
      = (Inl (BaseExceptionRaised ''KeyboardInterrupt''),
         log_event (EmitProgress (EmitRaisesBaseException ''KeyboardInterrupt''))
           ((started env_interrupt [(''r'', [])] w_empty)\<lparr>emit_calls := Suc (emit_calls (started env_interrupt [(''r'', [])] w_empty))\<rparr>))"
    unfolding fetch_unfold [OF v rt ne]
    by (simp add: e emit_progress_safe_def Let_def)
  have 3: "db_rows (snd (fetch env_interrupt ds_all w_empty)) = []"
    unfolding 2 by (simp add: log_event_def started_def w_empty_def)
  from 1 2 3 show ?thesis by simp
qed

end
